theory Spec2Isabelle
  imports Main "HOL-Library.Sublist" "HOL-Library.Multiset"
begin

section \<open>The host document tree\<close>

text \<open>
  \<^verbatim>\<open>render-tmpl.js\<close> works on a DOM tree that the host provides. The tree is modelled
  as a value: a node is a text node or an element-like node with its identity and type, its
  attribute list (in attribute order), the \<^verbatim>\<open>display\<close> property of its inline style, its
  children and, for a \<^verbatim>\<open>template\<close> element, the children of its \<^verbatim>\<open>content\<close> fragment. A document
  fragment is a node of type \<open>Fragment\<close>.

  The identity of a node is what a JavaScript reference to it holds on to: it stays with the
  node when the node is changed or moved. Identity and type never change, so they are kept
  together in the tag of the node. Inside one call of \<^verbatim>\<open>replaceStateDirectives\<close>, where nothing
  but the callbacks touches the fragment, an element of the static list that
  \<^verbatim>\<open>querySelectorAll\<close> returns is referred to by the path of child indices leading to it.

  Limits of the model: text nodes have no identity (no reference to a text node is kept
  anywhere in \<^verbatim>\<open>render-tmpl.js\<close>); elements are HTML elements of an HTML document, so
  \<^verbatim>\<open>setAttribute\<close> lower-cases the name it is given; a string is a list of bytes, which agrees
  with JavaScript on the ASCII characters the code inspects.
\<close>

datatype ntype = Element | Template | Fragment

type_synonym ident = nat

datatype tag = Tag (ident_of: ident) (ntype_of: ntype)

datatype node =
    Text string
  | Node (tag: tag) (attrs: "(string \<times> string) list") (display: string)
      (kids: "node list") (content: "node list")

datatype error = TypeError | InvalidCharacterError | HierarchyRequestError | Untracked

text \<open>
  The parts of the host that \<^verbatim>\<open>render-tmpl.js\<close> relies on without fixing them are parameters
  of the model: the CSS parser that reads the \<^verbatim>\<open>display\<close> property out of the text of a
  \<^verbatim>\<open>style\<close> attribute, the CSS serialiser that gives the new text of the \<^verbatim>\<open>style\<close> attribute
  (\<open>None\<close>: there is no such attribute) when \<^verbatim>\<open>el.style.display\<close> is assigned, from the old
  text and the assigned value, and the text that the engine prints for a built-in function.
\<close>

record host =
  display_of_style :: "string \<Rightarrow> string"
  style_with_display :: "string option \<Rightarrow> string \<Rightarrow> string option"
  function_text :: "string \<Rightarrow> string"

text \<open>
  The values that \<^verbatim>\<open>state[key]\<close> can give: \<^verbatim>\<open>undefined\<close>, \<^verbatim>\<open>null\<close>, a string, or any other
  value, of which the code uses the truthiness and the conversion to a string only. A state
  is given by its lookup \<^verbatim>\<open>state[key]\<close>, which follows the prototype chain.
\<close>

datatype sval = SUndefined | SNull | SString string | SOther bool string

type_synonym state = "string \<Rightarrow> sval"

text \<open>
  The lookup of an object literal with the given string properties (their names distinct):
  its own properties first, then the properties every object inherits from
  \<^verbatim>\<open>Object.prototype\<close>, which are functions but for the accessor \<^verbatim>\<open>__proto__\<close>.
\<close>

definition object_prototype :: "host \<Rightarrow> string \<Rightarrow> sval" where
  "object_prototype h key =
     (if key \<in> set [''constructor'', ''hasOwnProperty'', ''isPrototypeOf'',
                    ''propertyIsEnumerable'', ''toLocaleString'', ''toString'', ''valueOf'',
                    ''__defineGetter__'', ''__defineSetter__'', ''__lookupGetter__'',
                    ''__lookupSetter__'']
      then SOther True (function_text h key)
      else if key = ''__proto__'' then SOther True ''[object Object]''
      else SUndefined)"

definition obj :: "host \<Rightarrow> (string \<times> string) list \<Rightarrow> state" where
  "obj h props key =
     (case map_of props key of Some v \<Rightarrow> SString v | None \<Rightarrow> object_prototype h key)"

text \<open>\<^verbatim>\<open>el.dataset.sX\<close> reads the attribute \<^verbatim>\<open>data-s-x\<close>; \<open>None\<close> is \<^verbatim>\<open>undefined\<close>.\<close>

fun getAttribute :: "string \<Rightarrow> node \<Rightarrow> string option" where
  "getAttribute name (Text s) = None"
| "getAttribute name (Node t a d ks c) = map_of a name"

definition hasAttribute :: "string \<Rightarrow> node \<Rightarrow> bool" where
  "hasAttribute name n = (getAttribute name n \<noteq> None)"

text \<open>The getter \<^verbatim>\<open>textContent\<close>: the data of all text descendants, in document order.\<close>

fun textContent :: "node \<Rightarrow> string" where
  "textContent (Text s) = s"
| "textContent (Node t a d ks c) = concat (map textContent ks)"

subsection \<open>Strings\<close>

text \<open>\<^verbatim>\<open>str.replace(pat, rep)\<close> with a string pattern replaces the first occurrence only.\<close>

fun replace_first :: "string \<Rightarrow> string \<Rightarrow> string \<Rightarrow> string" where
  "replace_first pat rep [] = (if pat = [] then rep else [])"
| "replace_first pat rep (c # cs) =
     (if prefix pat (c # cs) then rep @ drop (length pat) (c # cs)
      else c # replace_first pat rep cs)"

text \<open>\<^verbatim>\<open>str.split(sep)\<close> with a one-character separator; \<^verbatim>\<open>"".split(",")\<close> is \<^verbatim>\<open>[""]\<close>.\<close>

fun split_on :: "char \<Rightarrow> string \<Rightarrow> string list" where
  "split_on sep [] = [[]]"
| "split_on sep (c # cs) =
     (if c = sep then [] # split_on sep cs
      else (c # hd (split_on sep cs)) # tl (split_on sep cs))"

definition ascii_lower :: "char \<Rightarrow> char" where
  "ascii_lower c =
     (let n = (of_char c :: nat) in if 65 \<le> n \<and> n \<le> 90 then char_of (n + 32) else c)"

subsection \<open>Setters of the host\<close>

text \<open>
  \<^verbatim>\<open>el.style.display = v\<close>, for the two values that the code assigns, \<^verbatim>\<open>"none"\<close> and \<^verbatim>\<open>""\<close>:
  the property has the assigned value afterwards, and the \<^verbatim>\<open>style\<close> attribute has the text
  that the serialiser of the host gives.

  \<^verbatim>\<open>el.textContent = v\<close>: \<^verbatim>\<open>textContent\<close> is a nullable string attribute, so \<^verbatim>\<open>undefined\<close> and
  \<^verbatim>\<open>null\<close> are taken as the empty string, and the children are replaced by one text node, or
  by nothing when the string is empty.

  \<^verbatim>\<open>el.setAttribute(name, v)\<close> takes a plain string: \<^verbatim>\<open>undefined\<close> is converted to the string
  \<^verbatim>\<open>"undefined"\<close>; the name must be a valid attribute name (not empty, and without ASCII
  whitespace, NUL, \<^verbatim>\<open>/\<close>, \<^verbatim>\<open>=\<close> or \<^verbatim>\<open>>\<close>), otherwise the host throws. Writing the \<^verbatim>\<open>style\<close>
  attribute makes the host parse its text again, which gives the \<^verbatim>\<open>display\<close> property anew.

  A reference that no longer leads to an element (the element was detached by an earlier
  \<^verbatim>\<open>textContent\<close> assignment) leaves the tree as it is.
\<close>

fun put :: "string \<Rightarrow> string \<Rightarrow> (string \<times> string) list \<Rightarrow> (string \<times> string) list" where
  "put name v [] = [(name, v)]"
| "put name v (p # ps) = (if fst p = name then (name, v) # ps else p # put name v ps)"

fun set_display :: "host \<Rightarrow> string \<Rightarrow> node \<Rightarrow> node" where
  "set_display h v (Text s) = Text s"
| "set_display h v (Node t a d ks c) =
     Node t (case style_with_display h (map_of a ''style'') v of
               None \<Rightarrow> a
             | Some s \<Rightarrow> put ''style'' s a) v ks c"

fun to_string :: "sval \<Rightarrow> string" where
  "to_string SUndefined = ''undefined''"
| "to_string SNull = ''null''"
| "to_string (SString s) = s"
| "to_string (SOther b s) = s"

fun nullable_string :: "sval \<Rightarrow> string" where
  "nullable_string SUndefined = []"
| "nullable_string SNull = []"
| "nullable_string v = to_string v"

fun set_textContent :: "sval \<Rightarrow> node \<Rightarrow> node" where
  "set_textContent v (Text s) = Text s"
| "set_textContent v (Node t a d ks c) =
     Node t a d (if nullable_string v = [] then [] else [Text (nullable_string v)]) c"

definition valid_attribute_name :: "string \<Rightarrow> bool" where
  "valid_attribute_name name =
     (name \<noteq> [] \<and>
      (\<forall>c \<in> set name. c \<notin> {CHR 0x09, CHR 0x0A, CHR 0x0C, CHR 0x0D, CHR '' '', CHR 0x00,
                              CHR ''/'', CHR ''='', CHR ''>''}))"

fun setAttribute :: "host \<Rightarrow> string \<Rightarrow> sval \<Rightarrow> node \<Rightarrow> error + node" where
  "setAttribute h name v (Text s) = Inr (Text s)"
| "setAttribute h name v (Node t a d ks c) =
     (if valid_attribute_name name
      then Inr (Node t (put (map ascii_lower name) (to_string v) a)
                  (if map ascii_lower name = ''style'' then display_of_style h (to_string v)
                   else d) ks c)
      else Inl InvalidCharacterError)"

subsection \<open>Selecting and visiting elements\<close>

text \<open>
  \<^verbatim>\<open>root.querySelectorAll(sel)\<close> is the static list of the descendants of \<open>root\<close> that match,
  in document order; the contents of a nested \<^verbatim>\<open>template\<close> are not descendants.
  \<^verbatim>\<open>list.forEach(cb)\<close> runs the callback on each entry and stops at the first exception.
\<close>

fun qsa_self :: "(node \<Rightarrow> bool) \<Rightarrow> node \<Rightarrow> nat list list"
  and qsa_kids :: "(node \<Rightarrow> bool) \<Rightarrow> nat \<Rightarrow> node list \<Rightarrow> nat list list" where
  "qsa_self sel (Text s) = []"
| "qsa_self sel (Node t a d ks c) =
     (if sel (Node t a d ks c) then [[]] else []) @ qsa_kids sel 0 ks"
| "qsa_kids sel i [] = []"
| "qsa_kids sel i (k # ks) = map ((#) i) (qsa_self sel k) @ qsa_kids sel (Suc i) ks"

fun querySelectorAll :: "(node \<Rightarrow> bool) \<Rightarrow> node \<Rightarrow> nat list list" where
  "querySelectorAll sel (Text s) = []"
| "querySelectorAll sel (Node t a d ks c) = qsa_kids sel 0 ks"

definition querySelector :: "(node \<Rightarrow> bool) \<Rightarrow> node \<Rightarrow> nat list option" where
  "querySelector sel n = (case querySelectorAll sel n of [] \<Rightarrow> None | p # ps \<Rightarrow> Some p)"

fun at_path :: "(node \<Rightarrow> error + node) \<Rightarrow> nat list \<Rightarrow> node \<Rightarrow> error + node" where
  "at_path f [] n = (case n of Text s \<Rightarrow> Inr n | Node t a d ks c \<Rightarrow> f n)"
| "at_path f (i # p) (Text s) = Inr (Text s)"
| "at_path f (i # p) (Node t a d ks c) =
     (if i < length ks
      then (case at_path f p (ks ! i) of
              Inl e \<Rightarrow> Inl e
            | Inr k \<Rightarrow> Inr (Node t a d (ks[i := k]) c))
      else Inr (Node t a d ks c))"

fun forEach :: "nat list list \<Rightarrow> (node \<Rightarrow> error + node) \<Rightarrow> node \<Rightarrow> error + node" where
  "forEach [] cb n = Inr n"
| "forEach (p # ps) cb n =
     (case at_path cb p n of Inl e \<Rightarrow> Inl e | Inr n' \<Rightarrow> forEach ps cb n')"

fun get_node :: "nat list \<Rightarrow> node \<Rightarrow> node option" where
  "get_node [] n = Some n"
| "get_node (i # p) (Text s) = None"
| "get_node (i # p) (Node t a d ks c) = (if i < length ks then get_node p (ks ! i) else None)"

section \<open>The directive resolver: \<^verbatim>\<open>replaceStateDirectives\<close>\<close>

definition clearMagic :: "string \<Rightarrow> string" where
  "clearMagic str = replace_first ''$ctx.'' [] str"

text \<open>The loop that counts the leading \<^verbatim>\<open>!\<close> and breaks at the first other character.\<close>

fun negationsCount :: "string \<Rightarrow> nat" where
  "negationsCount [] = 0"
| "negationsCount (c # cs) = (if c = CHR ''!'' then negationsCount cs + 1 else 0)"

text \<open>\<^verbatim>\<open>Boolean(state[key])\<close>.\<close>

fun Boolean :: "sval \<Rightarrow> bool" where
  "Boolean SUndefined = False"
| "Boolean SNull = False"
| "Boolean (SString s) = (s \<noteq> [])"
| "Boolean (SOther b s) = b"

definition show_cb :: "host \<Rightarrow> state \<Rightarrow> node \<Rightarrow> error + node" where
  "show_cb h st el =
     (case getAttribute ''data-s-show'' el of
        None \<Rightarrow> Inl TypeError
      | Some sShow \<Rightarrow>
          (let valueExpr = clearMagic sShow;
               n = negationsCount valueExpr;
               valueExpr = drop n valueExpr;
               evalValue = Boolean (st valueExpr)
           in if (if n mod 2 = 0 then \<not> evalValue else evalValue)
              then Inr (set_display h ''none'' el)
              else Inr (set_display h [] el)))"

definition text_cb :: "state \<Rightarrow> node \<Rightarrow> error + node" where
  "text_cb st el =
     (case getAttribute ''data-s-text'' el of
        None \<Rightarrow> Inl TypeError
      | Some sText \<Rightarrow> Inr (set_textContent (st (clearMagic sText)) el))"

text \<open>
  \<^verbatim>\<open>el.dataset.sAttr || el.dataset.sAttrs\<close>: the first operand unless it is \<^verbatim>\<open>undefined\<close> or
  the empty string.
\<close>

definition attr_source :: "node \<Rightarrow> string option" where
  "attr_source el =
     (case getAttribute ''data-s-attr'' el of
        None \<Rightarrow> getAttribute ''data-s-attrs'' el
      | Some sAttr \<Rightarrow> if sAttr = [] then getAttribute ''data-s-attrs'' el else Some sAttr)"

text \<open>
  One round of the loop over the pairs: \<^verbatim>\<open>pair.split("=")\<close> is destructured into its first
  two entries, and \<^verbatim>\<open>clearMagic(undefined)\<close> throws when there is no second entry.
\<close>

definition attr_pair :: "host \<Rightarrow> state \<Rightarrow> string \<Rightarrow> node \<Rightarrow> error + node" where
  "attr_pair h st pair el =
     (case split_on CHR ''='' pair of
        [] \<Rightarrow> Inl TypeError
      | [attrName] \<Rightarrow> Inl TypeError
      | attrName # attrValueExpr # rest \<Rightarrow>
          setAttribute h attrName (st (clearMagic attrValueExpr)) el)"

fun attr_pairs :: "host \<Rightarrow> state \<Rightarrow> string list \<Rightarrow> node \<Rightarrow> error + node" where
  "attr_pairs h st [] el = Inr el"
| "attr_pairs h st (pair # pairs) el =
     (case attr_pair h st pair el of Inl e \<Rightarrow> Inl e | Inr el' \<Rightarrow> attr_pairs h st pairs el')"

definition attr_cb :: "host \<Rightarrow> state \<Rightarrow> node \<Rightarrow> error + node" where
  "attr_cb h st el =
     (case attr_source el of
        None \<Rightarrow> Inl TypeError
      | Some v \<Rightarrow> attr_pairs h st (split_on CHR '','' v) el)"

definition sel_attr :: "node \<Rightarrow> bool" where
  "sel_attr n = (hasAttribute ''data-s-attr'' n \<or> hasAttribute ''data-s-attrs'' n)"

definition show_pass :: "host \<Rightarrow> state \<Rightarrow> node \<Rightarrow> error + node" where
  "show_pass h st tmpl =
     forEach (querySelectorAll (hasAttribute ''data-s-show'') tmpl) (show_cb h st) tmpl"

definition text_pass :: "state \<Rightarrow> node \<Rightarrow> error + node" where
  "text_pass st tmpl =
     forEach (querySelectorAll (hasAttribute ''data-s-text'') tmpl) (text_cb st) tmpl"

definition attr_pass :: "host \<Rightarrow> state \<Rightarrow> node \<Rightarrow> error + node" where
  "attr_pass h st tmpl = forEach (querySelectorAll sel_attr tmpl) (attr_cb h st) tmpl"

definition replaceStateDirectives :: "host \<Rightarrow> state \<Rightarrow> node \<Rightarrow> error + node" where
  "replaceStateDirectives h st tmpl =
     (case show_pass h st tmpl of
        Inl e \<Rightarrow> Inl e
      | Inr t1 \<Rightarrow>
          (case text_pass st t1 of
             Inl e \<Rightarrow> Inl e
           | Inr t2 \<Rightarrow> attr_pass h st t2))"

section \<open>The template instantiator: \<^verbatim>\<open>renderTmpl\<close>\<close>

text \<open>
  The trees that exist are the roots of a world: the documents, the detached nodes and the
  fragments. The world also records the calls of \<^verbatim>\<open>console.warn\<close>, oldest first. A reference
  to an element or a fragment is its identity; following a reference is a search of the
  roots. The search does not enter the content of a \<^verbatim>\<open>template\<close>, and a reference that it does
  not find gives the outcome \<open>Untracked\<close>: the model does not say what the code does then.
\<close>

record world =
  roots :: "node list"
  warnings :: "string list"

fun ids :: "node \<Rightarrow> ident list" and ids_in :: "node list \<Rightarrow> ident list" where
  "ids (Text s) = []"
| "ids (Node t a d ks c) = ident_of t # ids_in ks"
| "ids_in [] = []"
| "ids_in (k # ks) = ids k @ ids_in ks"

fun find_node :: "ident \<Rightarrow> node \<Rightarrow> node option"
  and find_in :: "ident \<Rightarrow> node list \<Rightarrow> node option" where
  "find_node i (Text s) = None"
| "find_node i (Node t a d ks c) = (if ident_of t = i then Some (Node t a d ks c) else find_in i ks)"
| "find_in i [] = None"
| "find_in i (k # ks) = (case find_node i k of Some n \<Rightarrow> Some n | None \<Rightarrow> find_in i ks)"

fun is_id :: "ident \<Rightarrow> node \<Rightarrow> bool" where
  "is_id i (Text s) = False"
| "is_id i (Node t a d ks c) = (ident_of t = i)"

text \<open>Taking a node out of the tree it is in, and changing the node with a given identity.\<close>

fun remove_node :: "ident \<Rightarrow> node \<Rightarrow> node"
  and remove_in :: "ident \<Rightarrow> node list \<Rightarrow> node list" where
  "remove_node i (Text s) = Text s"
| "remove_node i (Node t a d ks c) = Node t a d (remove_in i ks) c"
| "remove_in i [] = []"
| "remove_in i (k # ks) =
     (if is_id i k then remove_in i ks else remove_node i k # remove_in i ks)"

fun update_node :: "ident \<Rightarrow> (node \<Rightarrow> node) \<Rightarrow> node \<Rightarrow> node"
  and update_in :: "ident \<Rightarrow> (node \<Rightarrow> node) \<Rightarrow> node list \<Rightarrow> node list" where
  "update_node i f (Text s) = Text s"
| "update_node i f (Node t a d ks c) =
     (if ident_of t = i then f (Node t a d ks c) else Node t a d (update_in i f ks) c)"
| "update_in i f [] = []"
| "update_in i f (k # ks) = update_node i f k # update_in i f ks"

text \<open>
  What a child provider may return: \<^verbatim>\<open>undefined\<close>, \<^verbatim>\<open>null\<close>, another falsy value, an element or
  a fragment (by its identity), an array, or another truthy value that is not a node.
\<close>

datatype jsval = JUndefined | JNull | JFalsy | JNode ident | JArray "jsval list" | JTruthy

text \<open>
  A child provider is called with the fragment and the state. It may change any tree and
  make new ones, and what it writes to the console is appended to the log; it cannot read
  the log. It returns all the trees that exist when it returns.
\<close>

type_synonym provider =
  "ident \<Rightarrow> state \<Rightarrow> node list \<Rightarrow> (error + jsval) \<times> node list \<times> string list"

definition call :: "provider \<Rightarrow> ident \<Rightarrow> state \<Rightarrow> world \<Rightarrow> (error + jsval) \<times> world" where
  "call f tmpl st w =
     (case f tmpl st (roots w) of
        (r, rs, out) \<Rightarrow> (r, \<lparr>roots = rs, warnings = warnings w @ out\<rparr>))"

definition warn :: "string \<Rightarrow> world \<Rightarrow> world" where
  "warn msg w = w\<lparr>warnings := warnings w @ [msg]\<rparr>"

definition no_slot_warning :: string where
  "no_slot_warning = ''[renderTmpl]: subTmpl used without `data-s-slot` attr in parent template''"

text \<open>
  \<^verbatim>\<open>tmplEl.content.cloneNode(true)\<close>: a new fragment with a deep copy of the children of the
  template's content; the fragment and the copies are new nodes, with identities that no
  node of the world has. On anything but a \<^verbatim>\<open>template\<close> element \<^verbatim>\<open>content\<close> is \<^verbatim>\<open>undefined\<close> and
  the call throws.
\<close>

fun max_id :: "node \<Rightarrow> ident" and max_ids :: "node list \<Rightarrow> ident" where
  "max_id (Text s) = 0"
| "max_id (Node t a d ks c) = max (ident_of t) (max (max_ids ks) (max_ids c))"
| "max_ids [] = 0"
| "max_ids (k # ks) = max (max_id k) (max_ids ks)"

definition fresh :: "node list \<Rightarrow> ident" where
  "fresh rs = Suc (max_ids rs)"

fun copy :: "ident \<Rightarrow> node \<Rightarrow> node \<times> ident"
  and copies :: "ident \<Rightarrow> node list \<Rightarrow> node list \<times> ident" where
  "copy i (Text s) = (Text s, i)"
| "copy i (Node t a d ks c) =
     (case copies (Suc i) ks of
        (ks', j) \<Rightarrow> (case copies j c of (c', j') \<Rightarrow> (Node (Tag i (ntype_of t)) a d ks' c', j')))"
| "copies i [] = ([], i)"
| "copies i (k # ks) =
     (case copy i k of (k', j) \<Rightarrow> (case copies j ks of (ks', j') \<Rightarrow> (k' # ks', j')))"

definition cloneContent :: "ident \<Rightarrow> node list \<Rightarrow> error + node" where
  "cloneContent tmplEl rs =
     (case find_in tmplEl rs of
        None \<Rightarrow> Inl Untracked
      | Some el \<Rightarrow>
          (case el of
             Node t a d ks c \<Rightarrow>
               if ntype_of t = Template
               then Inr (Node (Tag (fresh rs) Fragment) [] [] (fst (copies (Suc (fresh rs)) c)) [])
               else Inl TypeError
           | Text s \<Rightarrow> Inl TypeError))"

text \<open>
  The first two statements of \<^verbatim>\<open>renderTmpl\<close>: clone, then resolve the clone in place. The
  fragment is one more root of the world.
\<close>

definition clone_and_resolve ::
  "host \<Rightarrow> ident \<Rightarrow> state \<Rightarrow> world \<Rightarrow> (error + ident) \<times> world" where
  "clone_and_resolve h tmplEl st w =
     (case cloneContent tmplEl (roots w) of
        Inl e \<Rightarrow> (Inl e, w)
      | Inr clone \<Rightarrow>
          (case replaceStateDirectives h st clone of
             Inl e \<Rightarrow> (Inl e, w\<lparr>roots := roots w @ [clone]\<rparr>)
           | Inr t \<Rightarrow> (Inr (fresh (roots w)), w\<lparr>roots := roots w @ [t]\<rparr>)))"

text \<open>
  \<^verbatim>\<open>tmpl.querySelector("[data-s-slot]")\<close>: the identity of the first element of the fragment
  with the marker; \<open>None\<close> is \<^verbatim>\<open>null\<close>.
\<close>

definition slot_of :: "ident \<Rightarrow> node list \<Rightarrow> error + ident option" where
  "slot_of tmpl rs =
     (case find_in tmpl rs of
        None \<Rightarrow> Inl Untracked
      | Some t \<Rightarrow>
          (case querySelector (hasAttribute ''data-s-slot'') t of
             None \<Rightarrow> Inr None
           | Some p \<Rightarrow>
               (case get_node p t of
                  Some (Node u a d ks c) \<Rightarrow> Inr (Some (ident_of u))
                | _ \<Rightarrow> Inl Untracked)))"

text \<open>
  \<^verbatim>\<open>slot.appendChild(s)\<close>. On \<^verbatim>\<open>null\<close> the property access throws; a value that is not a node
  is refused; a node that contains the slot, or is the slot, is refused by the host. A
  fragment gives its children to the slot and stays behind empty; any other node is taken
  out of the tree it is in, if it is in one, and becomes the last child of the slot.
\<close>

fun add_kids :: "node list \<Rightarrow> node \<Rightarrow> node" where
  "add_kids new (Text s) = Text s"
| "add_kids new (Node t a d ks c) = Node t a d (ks @ new) c"

fun no_kids :: "node \<Rightarrow> node" where
  "no_kids (Text s) = Text s"
| "no_kids (Node t a d ks c) = Node t a d [] c"

fun is_fragment :: "node \<Rightarrow> bool" where
  "is_fragment (Text s) = False"
| "is_fragment (Node t a d ks c) = (ntype_of t = Fragment)"

fun moved :: "node \<Rightarrow> node list" where
  "moved (Text s) = [Text s]"
| "moved (Node t a d ks c) = (if ntype_of t = Fragment then ks else [Node t a d ks c])"

definition appendChild :: "ident option \<Rightarrow> jsval \<Rightarrow> node list \<Rightarrow> error + node list" where
  "appendChild slot s rs =
     (case slot of
        None \<Rightarrow> Inl TypeError
      | Some sl \<Rightarrow>
          (case s of
             JNode k \<Rightarrow>
               (case find_in k rs of
                  None \<Rightarrow> Inl Untracked
                | Some n \<Rightarrow>
                    if sl \<in> set (ids n) then Inl HierarchyRequestError
                    else if find_in sl rs = None then Inl Untracked
                    else if is_fragment n
                    then Inr (update_in sl (add_kids (moved n)) (update_in k no_kids rs))
                    else Inr (update_in sl (add_kids (moved n)) (remove_in k rs)))
           | _ \<Rightarrow> Inl TypeError))"

text \<open>The loop \<^verbatim>\<open>for (const s of sub) slot.appendChild(s)\<close>; it stops at the first exception.\<close>

fun appendAll ::
  "ident option \<Rightarrow> jsval list \<Rightarrow> node list \<Rightarrow> (error + unit) \<times> node list" where
  "appendAll slot [] rs = (Inr (), rs)"
| "appendAll slot (s # ss) rs =
     (case appendChild slot s rs of
        Inl e \<Rightarrow> (Inl e, rs)
      | Inr rs' \<Rightarrow> appendAll slot ss rs')"

fun truthy :: "jsval \<Rightarrow> bool" where
  "truthy JUndefined = False"
| "truthy JNull = False"
| "truthy JFalsy = False"
| "truthy v = True"

text \<open>The statement \<^verbatim>\<open>if (Array.isArray(sub)) { ... } else if (sub) { ... }\<close> and the return.\<close>

definition attach ::
  "ident \<Rightarrow> ident option \<Rightarrow> jsval \<Rightarrow> world \<Rightarrow> (error + ident) \<times> world" where
  "attach tmpl slot sub w =
     (case sub of
        JArray items \<Rightarrow>
          (case appendAll slot items (roots w) of
             (Inl e, rs) \<Rightarrow> (Inl e, w\<lparr>roots := rs\<rparr>)
           | (Inr u, rs) \<Rightarrow> (Inr tmpl, w\<lparr>roots := rs\<rparr>))
      | _ \<Rightarrow>
          if truthy sub
          then (case appendChild slot sub (roots w) of
                  Inl e \<Rightarrow> (Inl e, w)
                | Inr rs \<Rightarrow> (Inr tmpl, w\<lparr>roots := rs\<rparr>))
          else (Inr tmpl, w))"

text \<open>\<^verbatim>\<open>renderTmpl\<close> of \<^verbatim>\<open>render-tmpl.js\<close>: the provider is called before the slot is looked up.\<close>

definition renderTmpl ::
  "host \<Rightarrow> ident \<Rightarrow> state \<Rightarrow> provider option \<Rightarrow> world \<Rightarrow> (error + ident) \<times> world" where
  "renderTmpl h tmplEl st subTmpl w =
     (case clone_and_resolve h tmplEl st w of
        (Inl e, w1) \<Rightarrow> (Inl e, w1)
      | (Inr tmpl, w1) \<Rightarrow>
          (case subTmpl of
             None \<Rightarrow> (Inr tmpl, w1)
           | Some f \<Rightarrow>
               (case call f tmpl st w1 of
                  (Inl e, w2) \<Rightarrow> (Inl e, w2)
                | (Inr sub, w2) \<Rightarrow>
                    (case slot_of tmpl (roots w2) of
                       Inl e \<Rightarrow> (Inl e, w2)
                     | Inr slot \<Rightarrow>
                         attach tmpl slot sub
                           (if slot = None then warn no_slot_warning w2 else w2)))))"

text \<open>
  The second \<^verbatim>\<open>renderTmpl\<close> of the sources: the slot is looked up, and the warning given,
  before the provider is called; the element that was found then is the one that the
  children are appended to.
\<close>

definition renderTmpl2 ::
  "host \<Rightarrow> ident \<Rightarrow> state \<Rightarrow> provider option \<Rightarrow> world \<Rightarrow> (error + ident) \<times> world" where
  "renderTmpl2 h tmplEl st subTmpl w =
     (case clone_and_resolve h tmplEl st w of
        (Inl e, w1) \<Rightarrow> (Inl e, w1)
      | (Inr tmpl, w1) \<Rightarrow>
          (case subTmpl of
             None \<Rightarrow> (Inr tmpl, w1)
           | Some f \<Rightarrow>
               (case slot_of tmpl (roots w1) of
                  Inl e \<Rightarrow> (Inl e, w1)
                | Inr slot \<Rightarrow>
                    (case call f tmpl st (if slot = None then warn no_slot_warning w1 else w1) of
                       (Inl e, w3) \<Rightarrow> (Inl e, w3)
                     | (Inr sub, w3) \<Rightarrow> attach tmpl slot sub w3))))"

text \<open>Whether a provider's result asks for anything to be appended.\<close>

fun provides :: "jsval \<Rightarrow> bool" where
  "provides (JArray []) = False"
| "provides (JArray (s # ss)) = True"
| "provides v = truthy v"

section \<open>Auxiliary notions\<close>

text \<open>
  A pass whose callback keeps the children of its element visits the tree in document order;
  \<open>visit\<close> is that traversal written by recursion on the tree.
\<close>

fun with_kids :: "node \<Rightarrow> node list \<Rightarrow> node" where
  "with_kids (Text s) ks = Text s"
| "with_kids (Node t a d ks0 c) ks = Node t a d ks c"

fun visit :: "(node \<Rightarrow> bool) \<Rightarrow> (node \<Rightarrow> error + node) \<Rightarrow> node \<Rightarrow> error + node"
  and visit_list :: "(node \<Rightarrow> bool) \<Rightarrow> (node \<Rightarrow> error + node) \<Rightarrow> node list \<Rightarrow> error + node list" where
  "visit sel f (Text s) = Inr (Text s)"
| "visit sel f (Node t a d ks c) =
     (case (if sel (Node t a d ks c) then f (Node t a d ks c) else Inr (Node t a d ks c)) of
        Inl e \<Rightarrow> Inl e
      | Inr n' \<Rightarrow> (case visit_list sel f ks of Inl e \<Rightarrow> Inl e | Inr ks' \<Rightarrow> Inr (with_kids n' ks')))"
| "visit_list sel f [] = Inr []"
| "visit_list sel f (k # ks) =
     (case visit sel f k of
        Inl e \<Rightarrow> Inl e
      | Inr k' \<Rightarrow> (case visit_list sel f ks of Inl e \<Rightarrow> Inl e | Inr ks' \<Rightarrow> Inr (k' # ks')))"

definition keeps_kids :: "(node \<Rightarrow> error + node) \<Rightarrow> bool" where
  "keeps_kids f = (\<forall>t a d ks c n'. f (Node t a d ks c) = Inr n' \<longrightarrow> (\<exists>t' a' d' c'. n' = Node t' a' d' ks c'))"

text \<open>
  A callback is local when it keeps the tag and the content of its element, changes the
  attributes and the display only within a given relation, and either keeps the children or
  replaces them by text nodes.
\<close>

definition local_rel ::
  "((string \<times> string) list \<times> string \<Rightarrow> (string \<times> string) list \<times> string \<Rightarrow> bool) \<Rightarrow>
   (node \<Rightarrow> error + node) \<Rightarrow> bool" where
  "local_rel R f = (\<forall>t a d ks c n'. f (Node t a d ks c) = Inr n' \<longrightarrow>
      (\<exists>a' d' ks'. n' = Node t a' d' ks' c \<and> R (a, d) (a', d') \<and>
         (ks' = ks \<or> (\<forall>k \<in> set ks'. \<exists>s. k = Text s))))"

text \<open>
  A pass whose callback replaces the children of its element by text nodes never reaches
  the elements below a matching one; \<open>visit_top\<close> is that traversal.
\<close>

fun visit_top :: "(node \<Rightarrow> bool) \<Rightarrow> (node \<Rightarrow> error + node) \<Rightarrow> node \<Rightarrow> error + node"
  and visit_top_list :: "(node \<Rightarrow> bool) \<Rightarrow> (node \<Rightarrow> error + node) \<Rightarrow> node list \<Rightarrow> error + node list" where
  "visit_top sel f (Text s) = Inr (Text s)"
| "visit_top sel f (Node t a d ks c) =
     (if sel (Node t a d ks c) then f (Node t a d ks c)
      else (case visit_top_list sel f ks of Inl e \<Rightarrow> Inl e | Inr ks' \<Rightarrow> Inr (Node t a d ks' c)))"
| "visit_top_list sel f [] = Inr []"
| "visit_top_list sel f (k # ks) =
     (case visit_top sel f k of
        Inl e \<Rightarrow> Inl e
      | Inr k' \<Rightarrow> (case visit_top_list sel f ks of Inl e \<Rightarrow> Inl e | Inr ks' \<Rightarrow> Inr (k' # ks')))"

definition text_kids :: "(node \<Rightarrow> error + node) \<Rightarrow> bool" where
  "text_kids f = (\<forall>t a d ks c n'. f (Node t a d ks c) = Inr n' \<longrightarrow>
      (\<exists>t' a' d' ks' c'. n' = Node t' a' d' ks' c' \<and> (\<forall>k \<in> set ks'. \<exists>s. k = Text s)))"

text \<open>
  Notions for the repeated resolution: a predicate on all elements of a tree, an element
  that a callback leaves as it is, the attribute names that the pairs of an element write
  (lower-cased, as \<^verbatim>\<open>setAttribute\<close> stores them), and the writes of a list of pairs as one
  fold, on the attribute list and on the display.
\<close>

fun all_elems :: "(node \<Rightarrow> bool) \<Rightarrow> node \<Rightarrow> bool" where
  "all_elems P (Text s) = True"
| "all_elems P (Node t a d ks c) = (P (Node t a d ks c) \<and> (\<forall>k \<in> set ks. all_elems P k))"

definition markers :: "string list" where
  "markers = [''data-s-show'', ''data-s-text'', ''data-s-attr'', ''data-s-attrs'']"

definition written :: "state \<Rightarrow> string \<Rightarrow> string \<times> string" where
  "written st pair =
     (map ascii_lower (hd (split_on CHR ''='' pair)),
      to_string (st (clearMagic (hd (tl (split_on CHR ''='' pair))))))"

definition written_names :: "node \<Rightarrow> string list" where
  "written_names el =
     (case attr_source el of
        None \<Rightarrow> []
      | Some v \<Rightarrow> map (\<lambda>pair. map ascii_lower (hd (split_on CHR ''='' pair))) (split_on CHR '','' v))"

definition writes_no_marker :: "node \<Rightarrow> bool" where
  "writes_no_marker el = (set (written_names el) \<inter> set markers = {})"

fun puts :: "(string \<times> string) list \<Rightarrow> (string \<times> string) list \<Rightarrow> (string \<times> string) list" where
  "puts [] a = a"
| "puts (nv # nvs) a = puts nvs (put (fst nv) (snd nv) a)"

fun displays :: "host \<Rightarrow> (string \<times> string) list \<Rightarrow> string \<Rightarrow> string" where
  "displays h [] d = d"
| "displays h (nv # nvs) d =
     displays h nvs (if fst nv = ''style'' then display_of_style h (snd nv) else d)"

definition fixed :: "(node \<Rightarrow> bool) \<Rightarrow> (node \<Rightarrow> error + node) \<Rightarrow> node \<Rightarrow> bool" where
  "fixed sel f e = (sel e \<longrightarrow> f e = Inr e)"

abbreviation "selS \<equiv> hasAttribute ''data-s-show''"
abbreviation "selT \<equiv> hasAttribute ''data-s-text''"




text \<open>
  A host for the examples. It reads and writes style texts that are empty or hold the one
  declaration of \<^verbatim>\<open>display\<close>, and prints a built-in function as V8 does.
\<close>

definition plain_host :: host where
  "plain_host =
     \<lparr>display_of_style = (\<lambda>s. if s = ''display:none'' \<or> s = ''display: none;'' then ''none'' else []),
      style_with_display =
        (\<lambda>old v. if v = []
                  then (case old of
                          None \<Rightarrow> None
                        | Some s \<Rightarrow> Some (if s = ''display:none'' \<or> s = ''display: none;'' then [] else s))
                  else Some (''display: '' @ v @ '';'')),
      function_text =
        (\<lambda>name. ''function '' @ (if name = ''constructor'' then ''Object'' else name) @
                 ''() { [native code] }'')\<rparr>"

section \<open>Properties of the host operations\<close>

lemma negationsCount_replicate:
  "k = [] \<or> hd k \<noteq> CHR ''!'' \<Longrightarrow> negationsCount (replicate n CHR ''!'' @ k) = n"
  by (induction n) (cases k; auto)+

lemma forEach_append:
  "forEach (ps @ qs) f n = (case forEach ps f n of Inl e \<Rightarrow> Inl e | Inr n' \<Rightarrow> forEach qs f n')"
  by (induction ps arbitrary: n) (auto split: sum.splits)

lemma forEach_Cons_path:
  "i < length ks \<Longrightarrow>
   forEach (map ((#) i) ps) f (Node t a d ks c) =
     (case forEach ps f (ks ! i) of Inl e \<Rightarrow> Inl e | Inr k \<Rightarrow> Inr (Node t a d (ks[i := k]) c))"
  by (induction ps arbitrary: ks) (auto split: sum.splits)

lemma forEach_visit:
  "keeps_kids f \<Longrightarrow> forEach (qsa_self sel n) f n = visit sel f n"
  "keeps_kids f \<Longrightarrow> i = length pre \<Longrightarrow>
   forEach (qsa_kids sel i ks) f (Node t a d (pre @ ks) c) =
     (case visit_list sel f ks of Inl e \<Rightarrow> Inl e | Inr ks' \<Rightarrow> Inr (Node t a d (pre @ ks') c))"
proof (induction sel n and sel i ks arbitrary: and pre t a d c rule: qsa_self_qsa_kids.induct)
  case (1 sel s)
  then show ?case by simp
next
  case (2 sel t a d ks c)
  show ?case
  proof (cases "sel (Node t a d ks c)")
    case False
    then show ?thesis using 2(1)[of "[]" t a d c] 2(2) by (simp split: sum.splits)
  next
    case True
    show ?thesis
    proof (cases "f (Node t a d ks c)")
      case (Inl e)
      then show ?thesis using True by simp
    next
      case (Inr n')
      then obtain t' a' d' c' where n': "n' = Node t' a' d' ks c'"
        using 2(2) unfolding keeps_kids_def by blast
      show ?thesis using True Inr n' 2(1)[of "[]" t' a' d' c'] 2(2)
        by (simp add: forEach_append split: sum.splits)
    qed
  qed
next
  case (3 sel i)
  then show ?case by simp
next
  case (4 sel i k ks)
  have step: "forEach (map ((#) i) (qsa_self sel k)) f (Node t a d (pre @ k # ks) c) =
     (case visit sel f k of Inl e \<Rightarrow> Inl e | Inr k' \<Rightarrow> Inr (Node t a d (pre @ k' # ks) c))"
    using 4(1)[OF 4(3)] 4(4) by (simp add: forEach_Cons_path nth_append list_update_append split: sum.splits)
  have rest: "forEach (qsa_kids sel (Suc i) ks) f (Node t a d (pre @ k' # ks) c) =
     (case visit_list sel f ks of Inl e \<Rightarrow> Inl e | Inr ks' \<Rightarrow> Inr (Node t a d (pre @ k' # ks') c))" for k'
    using 4(2)[of "pre @ [k']" t a d c] 4(3) 4(4) by (simp split: sum.splits)
  show ?case using step rest
    by (simp add: forEach_append split: sum.splits)
qed


lemma keeps_kidsD:
  "keeps_kids f \<Longrightarrow> f (Node t a d ks c) = Inr n' \<Longrightarrow> \<exists>t' a' d' c'. n' = Node t' a' d' ks c'"
  unfolding keeps_kids_def by blast

lemma visit_list_nth:
  "visit_list sel f ks = Inr ks' \<Longrightarrow>
   length ks' = length ks \<and> (\<forall>i < length ks. visit sel f (ks ! i) = Inr (ks' ! i))"
proof (induction ks arbitrary: ks')
  case Nil
  then show ?case by simp
next
  case (Cons k ks)
  then show ?case by (auto split: sum.splits simp: nth_Cons split: nat.splits)
qed

lemma visit_get_node:
  "keeps_kids f \<Longrightarrow> visit sel f n = Inr n' \<Longrightarrow> get_node p n = Some e \<Longrightarrow>
   \<exists>e'. get_node p n' = Some e' \<and> visit sel f e = Inr e'"
proof (induction p arbitrary: n n')
  case Nil
  then show ?case by simp
next
  case (Cons i p)
  from Cons.prems(3) obtain t a d ks c where n: "n = Node t a d ks c" and i: "i < length ks"
    and g: "get_node p (ks ! i) = Some e"
    by (cases n) (auto split: if_splits)
  from Cons.prems(2) n obtain n1 ks' where
    n1: "(if sel n then f n else Inr n) = Inr n1" and ks': "visit_list sel f ks = Inr ks'"
    and n': "n' = with_kids n1 ks'"
    by (auto split: sum.splits if_splits)
  from n1 n keeps_kidsD[OF Cons.prems(1), of t a d ks c n1]
  obtain t1 a1 d1 c1 where "n1 = Node t1 a1 d1 ks c1"
    by (cases "sel n") auto
  with n' have n'': "n' = Node t1 a1 d1 ks' c1" by simp
  from visit_list_nth[OF ks'] i have "length ks' = length ks" "visit sel f (ks ! i) = Inr (ks' ! i)"
    by auto
  with Cons.IH[OF Cons.prems(1) _ g] n'' i show ?case by simp
qed

lemma local_relD:
  "local_rel R f \<Longrightarrow> f (Node t a d ks c) = Inr n' \<Longrightarrow>
   \<exists>a' d' ks'. n' = Node t a' d' ks' c \<and> R (a, d) (a', d') \<and>
     (ks' = ks \<or> (\<forall>k \<in> set ks'. \<exists>s. k = Text s))"
  unfolding local_rel_def by blast

lemma at_path_back:
  "local_rel R f \<Longrightarrow> \<forall>x. R x x \<Longrightarrow> at_path f q n = Inr n' \<Longrightarrow>
   get_node p n' = Some (Node t' a' d' ks' c') \<Longrightarrow>
   \<exists>a d ks. get_node p n = Some (Node t' a d ks c') \<and> R (a, d) (a', d')"
proof (induction f q n arbitrary: p n' rule: at_path.induct)
  case (1 f n)
  show ?case
  proof (cases n)
    case (Text s)
    with 1 show ?thesis by simp
  next
    case (Node t a d ks c)
    with 1 local_relD[OF 1(1), of t a d ks c n'] obtain a1 d1 ks1 where n': "n' = Node t a1 d1 ks1 c"
      and r: "R (a, d) (a1, d1)"
      and k: "ks1 = ks \<or> (\<forall>k \<in> set ks1. \<exists>s. k = Text s)"
      by auto
    show ?thesis
    proof (cases p)
      case Nil
      with 1 n' Node r show ?thesis by simp
    next
      case (Cons i p')
      show ?thesis
      proof (cases "ks1 = ks")
        case True
        with 1 n' Node Cons show ?thesis by (auto split: if_splits)
      next
        case False
        with k have "\<forall>k \<in> set ks1. \<exists>s. k = Text s" by simp
        then have istext: "i < length ks1 \<Longrightarrow> \<exists>s. ks1 ! i = Text s"
          using nth_mem by blast
        from 1(4) n' Cons have i: "i < length ks1"
          and g: "get_node p' (ks1 ! i) = Some (Node t' a' d' ks' c')"
          by (auto split: if_splits)
        from istext[OF i] g have False by (cases p') auto
        then show ?thesis ..
      qed
    qed
  qed
next
  case (2 f i p s)
  then show ?case by simp
next
  case (3 f i q t a d ks c)
  show ?case
  proof (cases "i < length ks")
    case False
    with 3 show ?thesis by auto
  next
    case True
    with 3(4) obtain k where k: "at_path f q (ks ! i) = Inr k" and n': "n' = Node t a d (ks[i := k]) c"
      by (auto split: sum.splits)
    show ?thesis
    proof (cases p)
      case Nil
      with 3 n' show ?thesis by auto
    next
      case (Cons j p')
      show ?thesis
      proof (cases "j = i")
        case True
        with 3(1)[OF \<open>i < length ks\<close> 3(2,3) k, of p'] 3(5) n' Cons \<open>i < length ks\<close> show ?thesis
          by simp
      next
        case False
        with 3(3,5) n' Cons show ?thesis by (auto split: if_splits)
      qed
    qed
  qed
qed

lemma forEach_back:
  "local_rel R f \<Longrightarrow> \<forall>x. R x x \<Longrightarrow> \<forall>x y z. R x y \<longrightarrow> R y z \<longrightarrow> R x z \<Longrightarrow>
   forEach ps f n = Inr n' \<Longrightarrow> get_node p n' = Some (Node t' a' d' ks' c') \<Longrightarrow>
   \<exists>a d ks. get_node p n = Some (Node t' a d ks c') \<and> R (a, d) (a', d')"
proof (induction ps arbitrary: n)
  case Nil
  then show ?case by simp
next
  case (Cons q ps)
  from Cons.prems(4) obtain n1 where q: "at_path f q n = Inr n1" and r: "forEach ps f n1 = Inr n'"
    by (auto split: sum.splits)
  from Cons.IH[OF Cons.prems(1,2,3) r Cons.prems(5)] obtain a1 d1 ks1 where
    1: "get_node p n1 = Some (Node t' a1 d1 ks1 c')" "R (a1, d1) (a', d')" by blast
  from at_path_back[OF Cons.prems(1,2) q 1(1)] obtain a d ks where
    "get_node p n = Some (Node t' a d ks c')" "R (a, d) (a1, d1)" by blast
  with 1(2) Cons.prems(3) show ?case by blast
qed


lemma pass_visit:
  "keeps_kids f \<Longrightarrow>
   forEach (qsa_kids sel 0 ks) f (Node t a d ks c) =
     (case visit_list sel f ks of Inl e \<Rightarrow> Inl e | Inr ks' \<Rightarrow> Inr (Node t a d ks' c))"
  using forEach_visit(2)[of f 0 "[]" sel ks t a d c] by (simp cong: sum.case_cong)

lemma pass_get_node:
  assumes "keeps_kids f" "forEach (querySelectorAll sel n) f n = Inr n'"
    "get_node p n = Some e" "p \<noteq> []"
  shows "\<exists>e'. get_node p n' = Some e' \<and> visit sel f e = Inr e'"
proof -
  from assms(3,4) obtain i q t a d ks c where p: "p = i # q" and n: "n = Node t a d ks c"
    and i: "i < length ks" and g: "get_node q (ks ! i) = Some e"
    by (cases p; cases n) (auto split: if_splits)
  from assms(1,2) n obtain ks' where v: "visit_list sel f ks = Inr ks'" and n': "n' = Node t a d ks' c"
    by (auto simp: pass_visit split: sum.splits)
  from visit_list_nth[OF v] i have "length ks' = length ks" "visit sel f (ks ! i) = Inr (ks' ! i)"
    by auto
  with visit_get_node[OF assms(1) _ g] p n' i show ?thesis by simp
qed

lemma replace_first_absent:
  "pat \<noteq> [] \<Longrightarrow> \<not> sublist pat s \<Longrightarrow> replace_first pat rep s = s"
proof (induction s)
  case Nil
  then show ?case by simp
next
  case (Cons c cs)
  from Cons.prems(2) have np: "\<not> prefix pat (c # cs)" and ns: "\<not> sublist pat cs"
    by (simp_all add: sublist_Cons_right)
  with Cons.IH Cons.prems(1) show ?case by simp
qed

lemma replace_first_prefix:
  "pat \<noteq> [] \<Longrightarrow> replace_first pat rep (pat @ s) = rep @ s"
proof -
  assume "pat \<noteq> []"
  then obtain c cs where e: "pat @ s = c # cs" by (cases pat) auto
  have "prefix pat (c # cs)" "drop (length pat) (c # cs) = s"
    unfolding e[symmetric] by simp_all
  then show ?thesis unfolding e by simp
qed

lemma clearMagic_prefixed: "clearMagic (''$ctx.'' @ k) = k"
  unfolding clearMagic_def using replace_first_prefix[of "''$ctx.''" "[]" k] by simp

lemma clearMagic_plain: "\<not> sublist ''$ctx.'' k \<Longrightarrow> clearMagic k = k"
  unfolding clearMagic_def by (rule replace_first_absent) simp_all

lemma split_on_absent: "sep \<notin> set s \<Longrightarrow> split_on sep s = [s]"
  by (induction s) auto

lemma split_on_first:
  "sep \<notin> set s \<Longrightarrow> split_on sep (s @ sep # r) = s # split_on sep r"
  by (induction s) auto

lemma split_on_nonempty: "split_on sep s \<noteq> []"
  by (induction s) auto

lemma text_kidsD:
  "text_kids f \<Longrightarrow> f (Node t a d ks c) = Inr n' \<Longrightarrow>
   \<exists>t' a' d' ks' c'. n' = Node t' a' d' ks' c' \<and> (\<forall>k \<in> set ks'. \<exists>s. k = Text s)"
  unfolding text_kids_def by blast

lemma at_path_Text: "at_path f p (Text s) = Inr (Text s)"
  by (cases p) auto

lemma forEach_text_kids:
  "\<forall>k \<in> set ks. \<exists>s. k = Text s \<Longrightarrow> \<forall>p \<in> set ps. p \<noteq> [] \<Longrightarrow>
   forEach ps f (Node t a d ks c) = Inr (Node t a d ks c)"
proof (induction ps)
  case Nil
  then show ?case by simp
next
  case (Cons p ps)
  then obtain i q where p: "p = i # q" by (cases p) auto
  have "at_path f p (Node t a d ks c) = Inr (Node t a d ks c)"
  proof (cases "i < length ks")
    case True
    with Cons.prems(1) obtain s where "ks ! i = Text s" using nth_mem by blast
    with True p show ?thesis by (simp add: at_path_Text list_update_same_conv)
  next
    case False
    with p show ?thesis by simp
  qed
  with Cons show ?case by simp
qed

lemma qsa_kids_nonempty: "\<forall>p \<in> set (qsa_kids sel i ks). p \<noteq> []"
  by (induction ks arbitrary: i) auto

lemma forEach_visit_top:
  "text_kids f \<Longrightarrow> forEach (qsa_self sel n) f n = visit_top sel f n"
  "text_kids f \<Longrightarrow> i = length pre \<Longrightarrow>
   forEach (qsa_kids sel i ks) f (Node t a d (pre @ ks) c) =
     (case visit_top_list sel f ks of Inl e \<Rightarrow> Inl e | Inr ks' \<Rightarrow> Inr (Node t a d (pre @ ks') c))"
proof (induction sel n and sel i ks arbitrary: and pre t a d c rule: qsa_self_qsa_kids.induct)
  case (1 sel s)
  then show ?case by simp
next
  case (2 sel t a d ks c)
  show ?case
  proof (cases "sel (Node t a d ks c)")
    case False
    then show ?thesis using 2(1)[of "[]" t a d c] 2(2) by (simp split: sum.splits)
  next
    case True
    show ?thesis
    proof (cases "f (Node t a d ks c)")
      case (Inl e)
      then show ?thesis using True by simp
    next
      case (Inr n')
      from text_kidsD[OF 2(2) Inr] obtain t' a' d' ks' c' where n': "n' = Node t' a' d' ks' c'"
        and tk: "\<forall>k \<in> set ks'. \<exists>s. k = Text s" by blast
      from forEach_text_kids[OF tk qsa_kids_nonempty, of sel 0 ks f t' a' d' c']
      show ?thesis using True Inr n' by (simp add: forEach_append)
    qed
  qed
next
  case (3 sel i)
  then show ?case by simp
next
  case (4 sel i k ks)
  have step: "forEach (map ((#) i) (qsa_self sel k)) f (Node t a d (pre @ k # ks) c) =
     (case visit_top sel f k of Inl e \<Rightarrow> Inl e | Inr k' \<Rightarrow> Inr (Node t a d (pre @ k' # ks) c))"
    using 4(1)[OF 4(3)] 4(4)
    by (simp add: forEach_Cons_path nth_append list_update_append split: sum.splits)
  have rest: "forEach (qsa_kids sel (Suc i) ks) f (Node t a d (pre @ k' # ks) c) =
     (case visit_top_list sel f ks of Inl e \<Rightarrow> Inl e | Inr ks' \<Rightarrow> Inr (Node t a d (pre @ k' # ks') c))" for k'
    using 4(2)[of "pre @ [k']" t a d c] 4(3) 4(4) by (simp split: sum.splits)
  show ?case using step rest
    by (simp add: forEach_append split: sum.splits)
qed

lemma pass_visit_top:
  "text_kids f \<Longrightarrow>
   forEach (qsa_kids sel 0 ks) f (Node t a d ks c) =
     (case visit_top_list sel f ks of Inl e \<Rightarrow> Inl e | Inr ks' \<Rightarrow> Inr (Node t a d ks' c))"
  using forEach_visit_top(2)[of f 0 "[]" sel ks t a d c] by (simp cong: sum.case_cong)


lemma split_on_prepend:
  "sep \<notin> set pre \<Longrightarrow>
   split_on sep (pre @ s) = (pre @ hd (split_on sep s)) # tl (split_on sep s)"
  by (induction pre) (auto simp: split_on_nonempty)

lemma hd_split_on_prefix: "prefix (hd (split_on sep s)) s"
  by (induction s) auto


section \<open>Properties of the callbacks\<close>

lemma map_of_put: "map_of (put name v a) name = Some v"
  by (induction a) auto

lemma map_of_put_other: "m \<noteq> n \<Longrightarrow> map_of (put n v a) m = map_of a m"
  by (induction a) auto

lemma put_same: "map_of a n = Some v \<Longrightarrow> put n v a = a"
  by (induction a) (auto split: if_splits)

lemma put_put_same: "put n v (put n v' a) = put n v a"
  by (induction a) auto

lemma put_keys: "fst ` set (put n v a) = insert n (fst ` set a)"
  by (induction a) auto

lemma show_cb_Node:
  "map_of a ''data-s-show'' = Some v \<Longrightarrow>
   show_cb h st (Node t a d ks c) =
     Inr (set_display h
       (if (if negationsCount (clearMagic v) mod 2 = 0
            then \<not> Boolean (st (drop (negationsCount (clearMagic v)) (clearMagic v)))
            else Boolean (st (drop (negationsCount (clearMagic v)) (clearMagic v))))
        then ''none'' else []) (Node t a d ks c))"
  by (simp add: show_cb_def Let_def)

lemma show_cb_form:
  "show_cb h st (Node t a d ks c) = Inr n' \<Longrightarrow>
   \<exists>a' d'. n' = Node t a' d' ks c \<and> (\<forall>m. m \<noteq> ''style'' \<longrightarrow> map_of a' m = map_of a m)"
  by (auto simp: show_cb_def Let_def map_of_put_other split: option.splits if_splits)

lemma keeps_kids_show: "keeps_kids (show_cb h st)"
  unfolding keeps_kids_def using show_cb_form by blast

lemma attr_pairs_local:
  "attr_pairs h st ps (Node t a d ks c) = Inr n' \<Longrightarrow> \<exists>a' d'. n' = Node t a' d' ks c"
  by (induction ps arbitrary: a d)
     (auto simp: attr_pair_def split: sum.splits list.splits if_splits)

lemma attr_cb_form:
  "attr_cb h st (Node t a d ks c) = Inr n' \<Longrightarrow> \<exists>a' d'. n' = Node t a' d' ks c"
  by (auto simp: attr_cb_def split: option.splits dest: attr_pairs_local)

lemma keeps_kids_attr: "keeps_kids (attr_cb h st)"
  unfolding keeps_kids_def using attr_cb_form by blast

lemma local_rel_show:
  "local_rel (\<lambda>x y. \<forall>m. m \<noteq> ''style'' \<longrightarrow> map_of (fst y) m = map_of (fst x) m) (show_cb h st)"
  unfolding local_rel_def using show_cb_form by fastforce

lemma local_rel_text: "local_rel (=) (text_cb st)"
  unfolding local_rel_def
  by (auto simp: text_cb_def split: option.splits if_splits)

lemma local_rel_attr: "local_rel (\<lambda>x y. True) (attr_cb h st)"
  unfolding local_rel_def using attr_cb_form by fastforce

lemma visit_show_total:
  "\<exists>n'. visit (hasAttribute ''data-s-show'') (show_cb h st) n = Inr n'"
  "\<exists>ks'. visit_list (hasAttribute ''data-s-show'') (show_cb h st) ks = Inr ks'"
proof (induction "hasAttribute ''data-s-show''" "show_cb h st" n and "hasAttribute ''data-s-show''" "show_cb h st" ks
    rule: visit_visit_list.induct)
  case (1 s)
  then show ?case by simp
next
  case (2 t a d ks c)
  then show ?case
    by (auto simp: hasAttribute_def show_cb_def Let_def split: option.splits)
next
  case 3
  then show ?case by simp
next
  case (4 k ks)
  then show ?case by auto
qed

lemma show_pass_total: "\<exists>t1. show_pass h st tmpl = Inr t1"
proof (cases tmpl)
  case (Text s)
  then show ?thesis by (simp add: show_pass_def)
next
  case (Node t a d ks c)
  then show ?thesis using visit_show_total(2)[of h st ks]
    by (auto simp: show_pass_def pass_visit keeps_kids_show)
qed

text \<open>
  The display that the show callback assigns, for a marker value that is \<open>n\<close> characters
  \<^verbatim>\<open>!\<close> and a key, with or without the prefix \<^verbatim>\<open>$ctx.\<close>.
\<close>

lemma show_cb_expected:
  assumes "map_of a ''data-s-show'' = Some v"
    and "v = ''$ctx.'' @ e \<or> (v = e \<and> \<not> sublist ''$ctx.'' e)"
    and "e = replicate n CHR ''!'' @ k"
    and "k = [] \<or> hd k \<noteq> CHR ''!''"
  shows "show_cb h st (Node t a d ks c) =
     Inr (set_display h
       (if (even n \<and> Boolean (st k)) \<or> (odd n \<and> \<not> Boolean (st k)) then [] else ''none'')
       (Node t a d ks c))"
proof -
  have cm: "clearMagic v = replicate n CHR ''!'' @ k"
    using assms(2,3) clearMagic_prefixed[of e] clearMagic_plain[of e] by auto
  have n: "negationsCount (clearMagic v) = n"
    using cm assms(4) by (simp add: negationsCount_replicate)
  have k: "drop n (clearMagic v) = k" using cm by simp
  show ?thesis
    unfolding show_cb_Node[OF assms(1)] n k by (auto simp: even_iff_mod_2_eq_zero)
qed

lemma text_cb_Node:
  "map_of a ''data-s-text'' = Some v \<Longrightarrow>
   text_cb st (Node t a d ks c) =
     Inr (Node t a d
       (if nullable_string (st (clearMagic v)) = [] then []
        else [Text (nullable_string (st (clearMagic v)))]) c)"
  by (simp add: text_cb_def)

lemma text_kids_text: "text_kids (text_cb st)"
  unfolding text_kids_def
  by (auto simp: text_cb_def split: option.splits if_splits)

lemma visit_top_text_total:
  "\<exists>n'. visit_top (hasAttribute ''data-s-text'') (text_cb st) n = Inr n'"
  "\<exists>ks'. visit_top_list (hasAttribute ''data-s-text'') (text_cb st) ks = Inr ks'"
proof (induction "hasAttribute ''data-s-text''" "text_cb st" n and "hasAttribute ''data-s-text''" "text_cb st" ks
    rule: visit_top_visit_top_list.induct)
  case (1 s)
  then show ?case by simp
next
  case (2 t a d ks c)
  then show ?case
    by (auto simp: hasAttribute_def text_cb_def split: option.splits)
next
  case 3
  then show ?case by simp
next
  case (4 k ks)
  then show ?case by auto
qed

lemma text_pass_total: "\<exists>t1. text_pass st tmpl = Inr t1"
proof (cases tmpl)
  case (Text s)
  then show ?thesis by (simp add: text_pass_def)
next
  case (Node t a d ks c)
  then show ?thesis using visit_top_text_total(2)[of st ks]
    by (auto simp: text_pass_def pass_visit_top text_kids_text)
qed

lemma attr_pair_Cons:
  "CHR ''='' \<notin> set name \<Longrightarrow>
   attr_pair h st (name @ ''='' @ r) el =
     setAttribute h name (st (clearMagic (hd (split_on CHR ''='' r)))) el"
proof -
  assume "CHR ''='' \<notin> set name"
  then have "split_on CHR ''='' (name @ ''='' @ r) = name # split_on CHR ''='' r"
    using split_on_first[of "CHR ''=''" name r] by simp
  then show ?thesis
    using split_on_nonempty[of "CHR ''=''" r]
    by (cases "split_on CHR ''='' r") (auto simp: attr_pair_def)
qed

subsection \<open>The writes of a list of pairs\<close>

lemma puts_append: "puts (xs @ ys) a = puts ys (puts xs a)"
  by (induction xs arbitrary: a) auto

lemma displays_append: "displays h (xs @ ys) d = displays h ys (displays h xs d)"
  by (induction xs arbitrary: d) auto

lemma puts_keys: "fst ` set (puts nvs a) = fst ` set nvs \<union> fst ` set a"
  by (induction nvs arbitrary: a) (auto simp: put_keys)

lemma map_of_puts_other: "m \<notin> fst ` set nvs \<Longrightarrow> map_of (puts nvs a) m = map_of a m"
  by (induction nvs arbitrary: a) (auto simp: map_of_put_other)

lemma displays_other: "''style'' \<notin> fst ` set nvs \<Longrightarrow> displays h nvs d = d"
  by (induction nvs arbitrary: d) auto

lemma displays_style:
  "''style'' \<in> fst ` set nvs \<Longrightarrow> displays h nvs d = displays h nvs d'"
proof (induction nvs arbitrary: d d' rule: rev_induct)
  case Nil
  then show ?case by simp
next
  case (snoc nv nvs)
  show ?case
  proof (cases "fst nv = ''style''")
    case True
    then show ?thesis by (simp add: displays_append)
  next
    case False
    with snoc.prems have "''style'' \<in> fst ` set nvs" by auto
    from snoc.IH[OF this, of d d'] False show ?thesis by (simp add: displays_append)
  qed
qed

lemma put_commute:
  "n \<noteq> m \<Longrightarrow> m \<in> fst ` set a \<Longrightarrow> put n v (put m u a) = put m u (put n v a)"
  by (induction a) auto

lemma put_puts_put:
  "fst ` set nvs \<subseteq> fst ` set y \<Longrightarrow> put k v (puts nvs (put k v y)) = put k v (puts nvs y)"
proof (induction nvs arbitrary: y)
  case Nil
  then show ?case by (simp add: put_put_same)
next
  case (Cons nv nvs)
  obtain k1 v1 where nv: "nv = (k1, v1)" by (cases nv)
  show ?case
  proof (cases "k1 = k")
    case True
    with nv show ?thesis by (simp add: put_put_same)
  next
    case False
    from Cons.prems nv have in_y: "k1 \<in> fst ` set y" by simp
    have sub: "fst ` set nvs \<subseteq> fst ` set (put k1 v1 y)"
      using Cons.prems by (auto simp: put_keys)
    have "put k1 v1 (put k v y) = put k v (put k1 v1 y)"
      using put_commute[of k k1 y v v1] False in_y by simp
    with Cons.IH[OF sub] nv show ?thesis by simp
  qed
qed

lemma puts_idem: "puts nvs (puts nvs a) = puts nvs a"
proof (induction nvs arbitrary: a rule: rev_induct)
  case Nil
  then show ?case by simp
next
  case (snoc nv nvs)
  obtain k v where nv: "nv = (k, v)" by (cases nv)
  let ?y = "puts nvs a"
  have sub: "fst ` set nvs \<subseteq> fst ` set ?y" by (simp add: puts_keys)
  have "puts (nvs @ [nv]) (puts (nvs @ [nv]) a) = put k v (puts nvs (put k v ?y))"
    by (simp add: puts_append nv)
  also have "\<dots> = put k v (puts nvs ?y)" by (rule put_puts_put[OF sub])
  also have "\<dots> = put k v ?y" by (simp add: snoc.IH)
  finally show ?case by (simp add: puts_append nv)
qed

lemma attr_pair_written:
  "attr_pair h st pair (Node t a d ks c) = Inr e' \<Longrightarrow>
   e' = Node t (put (fst (written st pair)) (snd (written st pair)) a)
          (displays h [written st pair] d) ks c \<and>
   (\<forall>t2 a2 d2 ks2 c2. attr_pair h st pair (Node t2 a2 d2 ks2 c2) =
      Inr (Node t2 (put (fst (written st pair)) (snd (written st pair)) a2)
             (displays h [written st pair] d2) ks2 c2))"
  by (auto simp: attr_pair_def written_def split: list.splits if_splits)

lemma attr_pairs_written:
  "attr_pairs h st pairs (Node t a d ks c) = Inr e' \<Longrightarrow>
   e' = Node t (puts (map (written st) pairs) a) (displays h (map (written st) pairs) d) ks c \<and>
   (\<forall>t2 a2 d2 ks2 c2. attr_pairs h st pairs (Node t2 a2 d2 ks2 c2) =
      Inr (Node t2 (puts (map (written st) pairs) a2)
             (displays h (map (written st) pairs) d2) ks2 c2))"
proof (induction pairs arbitrary: a d)
  case Nil
  then show ?case by simp
next
  case (Cons pair pairs)
  from Cons.prems obtain e1 where p: "attr_pair h st pair (Node t a d ks c) = Inr e1"
    and r: "attr_pairs h st pairs e1 = Inr e'" by (auto split: sum.splits)
  note w = attr_pair_written[OF p]
  from w r Cons.IH[of "put (fst (written st pair)) (snd (written st pair)) a"
      "displays h [written st pair] d"]
  show ?case by simp
qed

lemma attr_source_Node:
  "attr_source (Node t a d ks c) =
     (case map_of a ''data-s-attr'' of
        None \<Rightarrow> map_of a ''data-s-attrs''
      | Some sAttr \<Rightarrow> if sAttr = [] then map_of a ''data-s-attrs'' else Some sAttr)"
  by (simp add: attr_source_def split: option.splits)

lemma sel_attr_Node:
  "sel_attr (Node t a d ks c) =
     (map_of a ''data-s-attr'' \<noteq> None \<or> map_of a ''data-s-attrs'' \<noteq> None)"
  by (simp add: sel_attr_def hasAttribute_def)

text \<open>
  The attr callback as one fold: the writes of the pairs of the own list, in order, on the
  attributes and on the display, whatever the children are.
\<close>

lemma attr_cb_written:
  assumes "attr_cb h st (Node t a d ks c) = Inr e'"
  shows "\<exists>v. attr_source (Node t a d ks c) = Some v \<and>
     e' = Node t (puts (map (written st) (split_on CHR '','' v)) a)
            (displays h (map (written st) (split_on CHR '','' v)) d) ks c \<and>
     (\<forall>a2 d2 ks2. attr_source (Node t a2 d2 ks2 c) = Some v \<longrightarrow>
        attr_cb h st (Node t a2 d2 ks2 c) =
          Inr (Node t (puts (map (written st) (split_on CHR '','' v)) a2)
                 (displays h (map (written st) (split_on CHR '','' v)) d2) ks2 c))"
proof -
  from assms obtain v where v: "attr_source (Node t a d ks c) = Some v"
    and ap: "attr_pairs h st (split_on CHR '','' v) (Node t a d ks c) = Inr e'"
    by (auto simp: attr_cb_def split: option.splits)
  from attr_pairs_written[OF ap] v show ?thesis
    by (auto simp: attr_cb_def)
qed

lemma written_names_eq:
  "attr_source el = Some v \<Longrightarrow>
   set (written_names el) = fst ` set (map (written st) (split_on CHR '','' v))"
  by (simp add: written_names_def written_def image_image)

lemma attr_cb_indep:
  "attr_cb h st (Node t a d ks c) = Inr (Node t a' d' ks c) \<Longrightarrow>
   \<exists>d3. attr_cb h st (Node t a d2 ks2 c) = Inr (Node t a' d3 ks2 c) \<and> (d2 = d \<longrightarrow> d3 = d')"
proof -
  assume r: "attr_cb h st (Node t a d ks c) = Inr (Node t a' d' ks c)"
  from attr_cb_written[OF r] obtain v where v: "attr_source (Node t a d ks c) = Some v"
    and e: "a' = puts (map (written st) (split_on CHR '','' v)) a"
      "d' = displays h (map (written st) (split_on CHR '','' v)) d"
    and g: "\<forall>a2 d2 ks2. attr_source (Node t a2 d2 ks2 c) = Some v \<longrightarrow>
        attr_cb h st (Node t a2 d2 ks2 c) =
          Inr (Node t (puts (map (written st) (split_on CHR '','' v)) a2)
                 (displays h (map (written st) (split_on CHR '','' v)) d2) ks2 c)"
    by auto
  have "attr_source (Node t a d2 ks2 c) = Some v" using v by (simp add: attr_source_Node)
  with g e show ?thesis by auto
qed

section \<open>The attribute directive\<close>

text \<open>
  C5, as stated, at a concrete input: the element carries \<^verbatim>\<open>data-s-attr=""\<close> and
  \<^verbatim>\<open>data-s-attrs="title=k"\<close>, and the state is \<^verbatim>\<open>{k: "v"}\<close>. The list that is read is the
  one of \<^verbatim>\<open>data-s-attrs\<close>, and the attribute \<^verbatim>\<open>title\<close> is set.
\<close>

theorem attr_precedence_counterexample:
  "attr_source (Node (Tag 1 Element) [(''data-s-attr'', []), (''data-s-attrs'', ''title=k'')] [] [] []) =
     Some ''title=k'' \<and>
   attr_cb plain_host (obj plain_host [(''k'', ''v'')])
     (Node (Tag 1 Element) [(''data-s-attr'', []), (''data-s-attrs'', ''title=k'')] [] [] []) =
     Inr (Node (Tag 1 Element)
            [(''data-s-attr'', []), (''data-s-attrs'', ''title=k''), (''title'', ''v'')] [] [] [])"
  by (simp add: attr_source_def attr_cb_def attr_pair_def clearMagic_def
      valid_attribute_name_def ascii_lower_def obj_def)

text \<open>
  C5, amended. On an element that carries both markers exactly one list is read: the list of
  \<^verbatim>\<open>data-s-attr\<close> when its value is not empty, and the list of \<^verbatim>\<open>data-s-attrs\<close> when the value
  of \<^verbatim>\<open>data-s-attr\<close> is the empty string.
\<close>

theorem attr_precedence:
  assumes "getAttribute ''data-s-attr'' el = Some v" and "getAttribute ''data-s-attrs'' el = Some w"
  shows "attr_source el = Some (if v = [] then w else v) \<and>
         attr_cb h st el = attr_pairs h st (split_on CHR '','' (if v = [] then w else v)) el"
  using assms by (simp add: attr_source_def attr_cb_def)

text \<open>The amended C5 at \<^verbatim>\<open>data-s-attr="alt=k"\<close>, \<^verbatim>\<open>data-s-attrs="title=k"\<close>.\<close>

theorem attr_precedence_witness:
  "getAttribute ''data-s-attr''
      (Node (Tag 1 Element) [(''data-s-attr'', ''alt=k''), (''data-s-attrs'', ''title=k'')] [] [] []) =
     Some ''alt=k'' \<and>
   getAttribute ''data-s-attrs''
      (Node (Tag 1 Element) [(''data-s-attr'', ''alt=k''), (''data-s-attrs'', ''title=k'')] [] [] []) =
     Some ''title=k'' \<and>
   attr_source (Node (Tag 1 Element) [(''data-s-attr'', ''alt=k''), (''data-s-attrs'', ''title=k'')] [] [] []) =
     Some ''alt=k''"
  using attr_precedence[of "Node (Tag 1 Element) [(''data-s-attr'', ''alt=k''), (''data-s-attrs'', ''title=k'')] [] [] []"
      "''alt=k''" "''title=k''"]
  by simp

text \<open>
  C6, as stated, at the pair \<^verbatim>\<open>name=a=b\<close>: the state is \<^verbatim>\<open>{"a": "1", "a=b": "2"}\<close>, and the
  attribute \<^verbatim>\<open>name\<close> is set to \<^verbatim>\<open>1\<close>: the value expression is \<^verbatim>\<open>a\<close>, not \<^verbatim>\<open>a=b\<close>.
\<close>

theorem pair_split_counterexample:
  "attr_pair plain_host (obj plain_host [(''a'', ''1''), (''a=b'', ''2'')]) ''name=a=b''
     (Node (Tag 1 Element) [] [] [] []) =
     Inr (Node (Tag 1 Element) [(''name'', ''1'')] [] [] [])"
  by (simp add: attr_pair_def clearMagic_def valid_attribute_name_def ascii_lower_def obj_def)

text \<open>
  C6, amended. A pair is split at every \<^verbatim>\<open>=\<close>; the first piece is the attribute name and the
  second piece, the text between the first and the second \<^verbatim>\<open>=\<close>, is the value expression.
  What follows a second \<^verbatim>\<open>=\<close> is ignored.
\<close>

theorem pair_split:
  assumes "CHR ''='' \<notin> set name" and "CHR ''='' \<notin> set expr"
  shows "attr_pair h st (name @ ''='' @ expr) el = setAttribute h name (st (clearMagic expr)) el \<and>
         attr_pair h st (name @ ''='' @ expr @ ''='' @ rest) el =
           setAttribute h name (st (clearMagic expr)) el"
  using assms by (simp add: attr_pair_def split_on_first split_on_absent)

text \<open>The amended C6 at the pair \<^verbatim>\<open>name=a=b\<close> and the state \<^verbatim>\<open>{a: "1"}\<close>.\<close>

theorem pair_split_witness:
  "CHR ''='' \<notin> set ''name'' \<and> CHR ''='' \<notin> set ''a'' \<and>
   attr_pair plain_host (obj plain_host [(''a'', ''1'')]) (''name'' @ ''='' @ ''a'' @ ''='' @ ''b'')
     (Node (Tag 1 Element) [] [] [] []) =
     setAttribute plain_host ''name'' (SString ''1'') (Node (Tag 1 Element) [] [] [] [])"
proof -
  have c: "clearMagic ''a'' = ''a''" by (simp add: clearMagic_def)
  have s: "obj plain_host [(''a'', ''1'')] ''a'' = SString ''1''" by (simp add: obj_def)
  from pair_split[of "''name''" "''a''" plain_host "obj plain_host [(''a'', ''1'')]"
      "Node (Tag 1 Element) [] [] [] []" "''b''"] c s
  show ?thesis by simp
qed

section \<open>The context prefix\<close>

text \<open>
  C7, as stated, at the key \<^verbatim>\<open>a$ctx.b\<close> and the state \<^verbatim>\<open>{"a$ctx.b": "X", "ab": "Y"}\<close>: with
  the prefix the text marker reads the state at \<^verbatim>\<open>a$ctx.b\<close>, without it at \<^verbatim>\<open>ab\<close>, and the
  two text contents differ.
\<close>

theorem ctx_prefix_counterexample:
  "text_cb (obj plain_host [(''a$ctx.b'', ''X''), (''ab'', ''Y'')])
     (Node (Tag 1 Element) [(''data-s-text'', ''$ctx.'' @ ''a$ctx.b'')] [] [] []) =
     Inr (Node (Tag 1 Element) [(''data-s-text'', ''$ctx.a$ctx.b'')] [] [Text ''X''] []) \<and>
   text_cb (obj plain_host [(''a$ctx.b'', ''X''), (''ab'', ''Y'')])
     (Node (Tag 1 Element) [(''data-s-text'', ''a$ctx.b'')] [] [] []) =
     Inr (Node (Tag 1 Element) [(''data-s-text'', ''a$ctx.b'')] [] [Text ''Y''] [])"
  by (simp add: text_cb_def clearMagic_def obj_def)

text \<open>
  C7, amended. For every key \<open>k\<close> that does not contain \<^verbatim>\<open>$ctx.\<close>, the expression \<^verbatim>\<open>$ctx.k\<close>
  resolves as \<open>k\<close> does: two elements that differ only in their attribute lists, one with
  the marker value \<^verbatim>\<open>$ctx.k\<close> and one with \<open>k\<close>, get the same children from the text
  callback and the same assignment to \<^verbatim>\<open>style.display\<close> from the show callback, and the
  pairs \<^verbatim>\<open>name=$ctx.k\<close> and \<^verbatim>\<open>name=k\<close> have the same effect on every element.
\<close>

theorem ctx_prefix_transparent:
  assumes "\<not> sublist ''$ctx.'' k"
    and "map_of aT ''data-s-text'' = Some (''$ctx.'' @ k)" and "map_of aT' ''data-s-text'' = Some k"
    and "map_of aS ''data-s-show'' = Some (''$ctx.'' @ k)" and "map_of aS' ''data-s-show'' = Some k"
    and "CHR ''='' \<notin> set name"
  shows "clearMagic (''$ctx.'' @ k) = clearMagic k \<and>
     (\<exists>ks'. text_cb st (Node t aT d ks c) = Inr (Node t aT d ks' c) \<and>
            text_cb st (Node t aT' d ks c) = Inr (Node t aT' d ks' c)) \<and>
     (\<exists>d'. show_cb h st (Node t aS d ks c) = Inr (set_display h d' (Node t aS d ks c)) \<and>
           show_cb h st (Node t aS' d ks c) = Inr (set_display h d' (Node t aS' d ks c)) \<and>
           display (set_display h d' (Node t aS d ks c)) = d' \<and>
           display (set_display h d' (Node t aS' d ks c)) = d') \<and>
     attr_pair h st (name @ ''='' @ ''$ctx.'' @ k) el = attr_pair h st (name @ ''='' @ k) el"
proof -
  have e: "clearMagic (''$ctx.'' @ k) = clearMagic k"
    using assms(1) clearMagic_prefixed[of k] by (simp add: clearMagic_plain)
  let ?h = "hd (split_on CHR ''='' k)"
  have "sublist ?h k" by (rule prefix_imp_sublist[OF hd_split_on_prefix])
  with assms(1) have nh: "\<not> sublist ''$ctx.'' ?h"
    using sublist_order.order_trans[of "''$ctx.''" ?h k] by auto
  have "hd (split_on CHR ''='' (''$ctx.'' @ k)) = ''$ctx.'' @ ?h"
    using split_on_prepend[of "CHR ''=''" "''$ctx.''" k] by simp
  then have h: "clearMagic (hd (split_on CHR ''='' (''$ctx.'' @ k))) = clearMagic ?h"
    using nh clearMagic_prefixed[of ?h] by (simp add: clearMagic_plain)
  have p: "attr_pair h st (name @ ''='' @ ''$ctx.'' @ k) el = attr_pair h st (name @ ''='' @ k) el"
    unfolding attr_pair_Cons[OF assms(6)] h ..
  have t: "\<exists>ks'. text_cb st (Node t aT d ks c) = Inr (Node t aT d ks' c) \<and>
            text_cb st (Node t aT' d ks c) = Inr (Node t aT' d ks' c)"
    using e assms(2,3) by (simp add: text_cb_Node del: append.simps)
  have s: "\<exists>d'. show_cb h st (Node t aS d ks c) = Inr (set_display h d' (Node t aS d ks c)) \<and>
           show_cb h st (Node t aS' d ks c) = Inr (set_display h d' (Node t aS' d ks c)) \<and>
           display (set_display h d' (Node t aS d ks c)) = d' \<and>
           display (set_display h d' (Node t aS' d ks c)) = d'"
    unfolding show_cb_Node[OF assms(4)] show_cb_Node[OF assms(5)] e by simp
  from e t s p show ?thesis by blast
qed

text \<open>The amended C7 at the key \<^verbatim>\<open>id\<close> and the state \<^verbatim>\<open>{id: "7"}\<close>.\<close>

theorem ctx_prefix_transparent_witness:
  "\<not> sublist ''$ctx.'' ''id'' \<and>
   text_cb (obj plain_host [(''id'', ''7'')]) (Node (Tag 1 Element) [(''data-s-text'', ''$ctx.id'')] [] [] []) =
     Inr (Node (Tag 1 Element) [(''data-s-text'', ''$ctx.id'')] [] [Text ''7''] []) \<and>
   text_cb (obj plain_host [(''id'', ''7'')]) (Node (Tag 1 Element) [(''data-s-text'', ''id'')] [] [] []) =
     Inr (Node (Tag 1 Element) [(''data-s-text'', ''id'')] [] [Text ''7''] []) \<and>
   attr_pair plain_host (obj plain_host [(''id'', ''7'')]) ''title=$ctx.id'' (Node (Tag 1 Element) [] [] [] []) =
     attr_pair plain_host (obj plain_host [(''id'', ''7'')]) ''title=id'' (Node (Tag 1 Element) [] [] [] [])"
proof -
  let ?st = "obj plain_host [(''id'', ''7'')]"
  have n: "\<not> sublist ''$ctx.'' ''id''"
    by (simp add: sublist_Cons_right)
  have t: "text_cb ?st (Node (Tag 1 Element) [(''data-s-text'', ''id'')] [] [] []) =
     Inr (Node (Tag 1 Element) [(''data-s-text'', ''id'')] [] [Text ''7''] [])"
    by (simp add: text_cb_def clearMagic_def obj_def)
  have m: "map_of [(''data-s-text'', ''$ctx.'' @ ''id'')] ''data-s-text'' = Some (''$ctx.'' @ ''id'')"
    "map_of [(''data-s-text'', ''id'')] ''data-s-text'' = Some ''id''"
    "map_of [(''data-s-show'', ''$ctx.'' @ ''id'')] ''data-s-show'' = Some (''$ctx.'' @ ''id'')"
    "map_of [(''data-s-show'', ''id'')] ''data-s-show'' = Some ''id''"
    "CHR ''='' \<notin> set ''title''"
    by simp_all
  note th = ctx_prefix_transparent[OF n m, of ?st "Tag 1 Element" "[]" "[]" "[]" plain_host
      "Node (Tag 1 Element) [] [] [] []"]
  from th obtain ks' where
    a: "text_cb ?st (Node (Tag 1 Element) [(''data-s-text'', ''$ctx.'' @ ''id'')] [] [] []) =
          Inr (Node (Tag 1 Element) [(''data-s-text'', ''$ctx.'' @ ''id'')] [] ks' [])"
    and b: "text_cb ?st (Node (Tag 1 Element) [(''data-s-text'', ''id'')] [] [] []) =
          Inr (Node (Tag 1 Element) [(''data-s-text'', ''id'')] [] ks' [])"
    by blast
  from b t have "ks' = [Text ''7'']" by simp
  with a have a': "text_cb ?st (Node (Tag 1 Element) [(''data-s-text'', ''$ctx.id'')] [] [] []) =
     Inr (Node (Tag 1 Element) [(''data-s-text'', ''$ctx.id'')] [] [Text ''7''] [])" by simp
  from th have p: "attr_pair plain_host ?st ''title=$ctx.id'' (Node (Tag 1 Element) [] [] [] []) =
     attr_pair plain_host ?st ''title=id'' (Node (Tag 1 Element) [] [] [] [])" by simp
  from n a' t p show ?thesis by blast
qed

section \<open>What the resolution does to one element\<close>

lemma visit_list_texts:
  "\<forall>k \<in> set ks. \<exists>s. k = Text s \<Longrightarrow> visit_list sel f ks = Inr ks"
  by (induction ks) auto

lemma visit_root:
  "keeps_kids f \<Longrightarrow> visit sel f (Node t a d ks c) = Inr (Node t1 a1 d1 ks1 c1) \<Longrightarrow>
   (if sel (Node t a d ks c) then f (Node t a d ks c) = Inr (Node t1 a1 d1 ks c1)
    else (t1, a1, d1, c1) = (t, a, d, c))"
proof -
  assume kk: "keeps_kids f" and v: "visit sel f (Node t a d ks c) = Inr (Node t1 a1 d1 ks1 c1)"
  show ?thesis
  proof (cases "sel (Node t a d ks c)")
    case True
    with v obtain e' ks' where f: "f (Node t a d ks c) = Inr e'"
      and w: "with_kids e' ks' = Node t1 a1 d1 ks1 c1" by (auto split: sum.splits)
    from keeps_kidsD[OF kk f] w have "e' = Node t1 a1 d1 ks c1" by auto
    with f True show ?thesis by simp
  next
    case False
    with v show ?thesis by (auto split: sum.splits)
  qed
qed

lemma visit_top_list_nth:
  "visit_top_list sel f ks = Inr ks' \<Longrightarrow>
   length ks' = length ks \<and> (\<forall>i < length ks. visit_top sel f (ks ! i) = Inr (ks' ! i))"
proof (induction ks arbitrary: ks')
  case Nil
  then show ?case by simp
next
  case (Cons k ks)
  then show ?case by (auto split: sum.splits simp: nth_Cons split: nat.splits)
qed

lemma visit_top_back:
  "text_kids f \<Longrightarrow> visit_top sel f n = Inr n' \<Longrightarrow>
   get_node p n = Some (Node t a d ks c) \<Longrightarrow> sel (Node t a d ks c) \<Longrightarrow>
   get_node p n' = Some (Node t' a' d' ks' c') \<Longrightarrow>
   f (Node t a d ks c) = Inr (Node t' a' d' ks' c')"
proof (induction p arbitrary: n n')
  case Nil
  then show ?case by simp
next
  case (Cons i q)
  from Cons.prems(3) obtain t0 a0 d0 ks0 c0 where n: "n = Node t0 a0 d0 ks0 c0"
    and i: "i < length ks0" and g: "get_node q (ks0 ! i) = Some (Node t a d ks c)"
    by (cases n) (auto split: if_splits)
  show ?case
  proof (cases "sel n")
    case True
    with Cons.prems(2) n have fn: "f (Node t0 a0 d0 ks0 c0) = Inr n'" by simp
    from text_kidsD[OF Cons.prems(1) fn] obtain t1 a1 d1 ks1 c1 where
      n': "n' = Node t1 a1 d1 ks1 c1" and tx: "\<forall>k \<in> set ks1. \<exists>s. k = Text s" by blast
    from Cons.prems(5) n' have i1: "i < length ks1"
      and g1: "get_node q (ks1 ! i) = Some (Node t' a' d' ks' c')"
      by (auto split: if_splits)
    from tx i1 obtain s where "ks1 ! i = Text s" using nth_mem by blast
    with g1 have False by (cases q) auto
    then show ?thesis ..
  next
    case False
    with Cons.prems(2) n obtain ks0' where v: "visit_top_list sel f ks0 = Inr ks0'"
      and n': "n' = Node t0 a0 d0 ks0' c0" by (auto split: sum.splits)
    from visit_top_list_nth[OF v] i have l: "length ks0' = length ks0"
      and vi: "visit_top sel f (ks0 ! i) = Inr (ks0' ! i)" by auto
    from Cons.prems(5) n' l i have "get_node q (ks0' ! i) = Some (Node t' a' d' ks' c')" by simp
    from Cons.IH[OF Cons.prems(1) vi g Cons.prems(4) this] show ?thesis .
  qed
qed

lemma visit_kids_texts:
  "keeps_kids f \<Longrightarrow> visit sel f (Node t a d ks c) = Inr (Node t1 a1 d1 ks1 c1) \<Longrightarrow>
   \<forall>k \<in> set ks. \<exists>s. k = Text s \<Longrightarrow> ks1 = ks"
proof -
  assume kk: "keeps_kids f" and v: "visit sel f (Node t a d ks c) = Inr (Node t1 a1 d1 ks1 c1)"
    and tx: "\<forall>k \<in> set ks. \<exists>s. k = Text s"
  from v obtain e' ks' where e: "(if sel (Node t a d ks c) then f (Node t a d ks c)
      else Inr (Node t a d ks c)) = Inr e'" and vl: "visit_list sel f ks = Inr ks'"
    and w: "with_kids e' ks' = Node t1 a1 d1 ks1 c1" by (auto split: sum.splits)
  from visit_list_texts[OF tx, of sel f] vl have "ks' = ks" by simp
  moreover from e keeps_kidsD[OF kk, of t a d ks c e'] obtain t2 a2 d2 c2 where
    "e' = Node t2 a2 d2 ks c2" by (cases "sel (Node t a d ks c)") auto
  ultimately show ?thesis using w by simp
qed

lemma show_back:
  assumes "forEach ps (show_cb h st) n = Inr n'"
    and "get_node p n' = Some (Node t' a' d' ks' c')"
  shows "\<exists>a d ks. get_node p n = Some (Node t' a d ks c') \<and>
           (\<forall>m. m \<noteq> ''style'' \<longrightarrow> map_of a' m = map_of a m)"
proof -
  let ?R = "\<lambda>x y. \<forall>m. m \<noteq> ''style'' \<longrightarrow> map_of (fst y) m = map_of (fst x) m"
  have r: "\<forall>x. ?R x x" by simp
  have t: "\<forall>x y z. ?R x y \<longrightarrow> ?R y z \<longrightarrow> ?R x z" by simp
  from forEach_back[of ?R, OF local_rel_show r t assms] show ?thesis by simp
qed

lemma text_back:
  assumes "forEach ps (text_cb st) n = Inr n'"
    and "get_node p n' = Some (Node t' a' d' ks' c')"
  shows "\<exists>ks. get_node p n = Some (Node t' a' d' ks c')"
proof -
  have r: "\<forall>x::(string \<times> string) list \<times> string. x = x" by simp
  have t: "\<forall>(x::(string \<times> string) list \<times> string) y z. x = y \<longrightarrow> y = z \<longrightarrow> x = z" by simp
  from forEach_back[of "(=)", OF local_rel_text r t assms] show ?thesis by simp
qed

lemma attr_back:
  assumes "forEach ps (attr_cb h st) n = Inr n'"
    and "get_node p n' = Some (Node t' a' d' ks' c')"
  shows "\<exists>a d ks. get_node p n = Some (Node t' a d ks c')"
proof -
  have r: "\<forall>x::(string \<times> string) list \<times> string. True" by simp
  have t: "\<forall>(x::(string \<times> string) list \<times> string) (y::(string \<times> string) list \<times> string)
             (z::(string \<times> string) list \<times> string). True \<longrightarrow> True \<longrightarrow> True" by simp
  from forEach_back[of "\<lambda>x y. True", OF local_rel_attr r t assms] show ?thesis by simp
qed

text \<open>
  An element that is in the fragment after the resolution was there before it, with the
  same tag and content, and its attributes and display are those that the show callback and
  then the attr callback give for the attributes and the display it had.
\<close>

lemma resolve_local:
  assumes "replaceStateDirectives h st tmpl = Inr t1"
    and "get_node p t1 = Some (Node t' a' d' ks' c')" and "p \<noteq> []"
  shows "\<exists>a0 d0 ks0 a2 d2. get_node p tmpl = Some (Node t' a0 d0 ks0 c') \<and>
     (if hasAttribute ''data-s-show'' (Node t' a0 d0 ks0 c')
      then show_cb h st (Node t' a0 d0 ks0 c') = Inr (Node t' a2 d2 ks0 c')
      else (a2, d2) = (a0, d0)) \<and>
     (if sel_attr (Node t' a2 d2 ks0 c')
      then attr_cb h st (Node t' a2 d2 ks0 c') = Inr (Node t' a' d' ks0 c')
      else (a', d') = (a2, d2))"
proof -
  from assms(1) obtain s1 s2 where sp: "show_pass h st tmpl = Inr s1"
    and tp: "text_pass st s1 = Inr s2" and ap: "attr_pass h st s2 = Inr t1"
    by (auto simp: replaceStateDirectives_def split: sum.splits)
  from attr_back[OF ap[unfolded attr_pass_def] assms(2)]
  obtain a2 d2 ks2 where g2: "get_node p s2 = Some (Node t' a2 d2 ks2 c')"
    by blast
  from text_back[OF tp[unfolded text_pass_def] g2]
  obtain ks1 where g1: "get_node p s1 = Some (Node t' a2 d2 ks1 c')"
    by blast
  from show_back[OF sp[unfolded show_pass_def] g1]
  obtain a0 d0 ks0 where g0: "get_node p tmpl = Some (Node t' a0 d0 ks0 c')"
    by blast
  from pass_get_node[OF keeps_kids_show sp[unfolded show_pass_def] g0 assms(3)] g1
  have "visit (hasAttribute ''data-s-show'') (show_cb h st) (Node t' a0 d0 ks0 c') =
          Inr (Node t' a2 d2 ks1 c')" by simp
  from visit_root[OF keeps_kids_show this]
  have sh: "if hasAttribute ''data-s-show'' (Node t' a0 d0 ks0 c')
      then show_cb h st (Node t' a0 d0 ks0 c') = Inr (Node t' a2 d2 ks0 c')
      else (a2, d2) = (a0, d0)"
    by (auto split: if_splits)
  from pass_get_node[OF keeps_kids_attr ap[unfolded attr_pass_def] g2 assms(3)] assms(2)
  have "visit sel_attr (attr_cb h st) (Node t' a2 d2 ks2 c') = Inr (Node t' a' d' ks' c')" by simp
  from visit_root[OF keeps_kids_attr this]
  have "if sel_attr (Node t' a2 d2 ks2 c')
      then attr_cb h st (Node t' a2 d2 ks2 c') = Inr (Node t' a' d' ks2 c')
      else (a', d') = (a2, d2)"
    by (auto split: if_splits)
  then have at: "if sel_attr (Node t' a2 d2 ks0 c')
      then attr_cb h st (Node t' a2 d2 ks0 c') = Inr (Node t' a' d' ks0 c')
      else (a', d') = (a2, d2)"
    using attr_cb_indep[of h st t' a2 d2 ks2 c' a' d' d2 ks0] by (simp add: sel_attr_Node)
  from g0 sh at show ?thesis by blast
qed

text \<open>
  An element with a text marker that is in the fragment after the resolution has the
  children that the text callback gives.
\<close>

lemma resolve_text_local:
  assumes "replaceStateDirectives h st tmpl = Inr t1"
    and "get_node p tmpl = Some (Node t a d ks c)" and "p \<noteq> []"
    and "map_of a ''data-s-text'' = Some v"
    and "get_node p t1 = Some (Node t' a' d' ks' c')"
  shows "ks' = (if nullable_string (st (clearMagic v)) = [] then []
                else [Text (nullable_string (st (clearMagic v)))])"
proof -
  from assms(1) obtain s1 s2 where sp: "show_pass h st tmpl = Inr s1"
    and tp: "text_pass st s1 = Inr s2" and ap: "attr_pass h st s2 = Inr t1"
    by (auto simp: replaceStateDirectives_def split: sum.splits)
  from attr_back[OF ap[unfolded attr_pass_def] assms(5)]
  obtain a2 d2 ks2 where g2: "get_node p s2 = Some (Node t' a2 d2 ks2 c')"
    by blast
  from text_back[OF tp[unfolded text_pass_def] g2]
  obtain ks1 where g1: "get_node p s1 = Some (Node t' a2 d2 ks1 c')"
    by blast
  from show_back[OF sp[unfolded show_pass_def] g1]
  obtain a0 d0 ks0 where g0: "get_node p tmpl = Some (Node t' a0 d0 ks0 c')"
    and r: "\<forall>m. m \<noteq> ''style'' \<longrightarrow> map_of a2 m = map_of a0 m"
    by blast
  with assms(2) have eq: "t' = t" "a0 = a" "c' = c" by simp_all
  from r eq assms(4) have m2: "map_of a2 ''data-s-text'' = Some v" by simp
  then have selT: "selT (Node t' a2 d2 ks1 c')" by (simp add: hasAttribute_def)
  obtain tt ta td tks tc where s1: "s1 = Node tt ta td tks tc"
    using g1 assms(3) by (cases s1; cases p) auto
  from tp s1 obtain tks' where vt: "visit_top_list selT (text_cb st) tks = Inr tks'"
    and s2: "s2 = Node tt ta td tks' tc"
    by (auto simp: text_pass_def pass_visit_top text_kids_text split: sum.splits)
  obtain i q where p: "p = i # q" using assms(3) by (cases p) auto
  from g1 s1 p have i: "i < length tks" and gq1: "get_node q (tks ! i) = Some (Node t' a2 d2 ks1 c')"
    by (auto split: if_splits)
  from visit_top_list_nth[OF vt] i have l: "length tks' = length tks"
    and vi: "visit_top selT (text_cb st) (tks ! i) = Inr (tks' ! i)" by auto
  from g2 s2 p l i have gq2: "get_node q (tks' ! i) = Some (Node t' a2 d2 ks2 c')" by simp
  from visit_top_back[OF text_kids_text vi gq1 selT gq2]
  have tc: "text_cb st (Node t' a2 d2 ks1 c') = Inr (Node t' a2 d2 ks2 c')" .
  then have k2: "ks2 = (if nullable_string (st (clearMagic v)) = [] then []
                else [Text (nullable_string (st (clearMagic v)))])"
    using m2 by (simp add: text_cb_Node)
  then have tx: "\<forall>k \<in> set ks2. \<exists>s. k = Text s" by (auto split: if_splits)
  from pass_get_node[OF keeps_kids_attr ap[unfolded attr_pass_def] g2 assms(3)] assms(5)
  have "visit sel_attr (attr_cb h st) (Node t' a2 d2 ks2 c') = Inr (Node t' a' d' ks' c')" by simp
  from visit_kids_texts[OF keeps_kids_attr this tx] k2 show ?thesis by simp
qed

section \<open>The show directive\<close>

text \<open>
  C1, as stated, at three concrete inputs.

  The element carries \<^verbatim>\<open>data-s-show="k"\<close> and \<^verbatim>\<open>data-s-attr="style=s"\<close>, and the state is
  \<^verbatim>\<open>{k: "1", s: "display:none"}\<close>: there is no negation and \<^verbatim>\<open>state[k]\<close> is a non-empty string,
  but after the resolution the display is \<^verbatim>\<open>"none"\<close>, which the attr pass has written.

  The element carries \<^verbatim>\<open>data-s-show="a$ctx.b"\<close>, a value without the prefix, and the state is
  \<^verbatim>\<open>{"a$ctx.b": "1"}\<close>: the key that is read is \<^verbatim>\<open>ab\<close>, and the display is \<^verbatim>\<open>"none"\<close>.

  The element carries \<^verbatim>\<open>data-s-show="constructor"\<close> and the state is \<^verbatim>\<open>{}\<close>, in which no key is
  set: \<^verbatim>\<open>state["constructor"]\<close> is the inherited function, and the display is \<^verbatim>\<open>""\<close>.
\<close>

theorem show_marker_display_counterexample:
  "replaceStateDirectives plain_host (obj plain_host [(''k'', ''1''), (''s'', ''display:none'')])
     (Node (Tag 1 Fragment) [] []
        [Node (Tag 2 Element) [(''data-s-show'', ''k''), (''data-s-attr'', ''style=s'')] [] [] []] []) =
     Inr (Node (Tag 1 Fragment) [] []
        [Node (Tag 2 Element)
           [(''data-s-show'', ''k''), (''data-s-attr'', ''style=s''), (''style'', ''display:none'')]
           ''none'' [] []] []) \<and>
   replaceStateDirectives plain_host (obj plain_host [(''a$ctx.b'', ''1'')])
     (Node (Tag 1 Fragment) [] []
        [Node (Tag 2 Element) [(''data-s-show'', ''a$ctx.b'')] [] [] []] []) =
     Inr (Node (Tag 1 Fragment) [] []
        [Node (Tag 2 Element) [(''data-s-show'', ''a$ctx.b''), (''style'', ''display: none;'')]
           ''none'' [] []] []) \<and>
   replaceStateDirectives plain_host (obj plain_host [])
     (Node (Tag 1 Fragment) [] []
        [Node (Tag 2 Element) [(''data-s-show'', ''constructor'')] [] [] []] []) =
     Inr (Node (Tag 1 Fragment) [] []
        [Node (Tag 2 Element) [(''data-s-show'', ''constructor'')] [] [] []] [])"
  by (simp add: replaceStateDirectives_def show_pass_def text_pass_def attr_pass_def
      hasAttribute_def sel_attr_def show_cb_def attr_cb_def attr_source_def attr_pair_def
      clearMagic_def Let_def valid_attribute_name_def ascii_lower_def obj_def
      object_prototype_def plain_host_def)

text \<open>
  C1, amended. An element of the fragment carries \<^verbatim>\<open>data-s-show\<close> with a value that is either
  \<^verbatim>\<open>$ctx.\<close> followed by an expression, or an expression that does not contain \<^verbatim>\<open>$ctx.\<close>; the
  expression is \<open>n\<close> characters \<^verbatim>\<open>!\<close> followed by a key \<open>k\<close> that does not begin with \<^verbatim>\<open>!\<close>;
  and \<^verbatim>\<open>state[k]\<close> is \<^verbatim>\<open>undefined\<close> or a string. Let truthy mean that \<^verbatim>\<open>state[k]\<close> is a
  non-empty string. Then the show pass always completes and leaves the element with display
  \<^verbatim>\<open>""\<close> when \<open>n\<close> is even and truthy or \<open>n\<close> is odd and not truthy, and with \<^verbatim>\<open>"none"\<close>
  otherwise; and whenever the whole resolution completes, the element is still in the
  fragment and no pair of its own attr list writes the attribute \<^verbatim>\<open>style\<close>, that is its
  display after the resolution.
\<close>

theorem show_marker_display:
  assumes "get_node p tmpl = Some (Node t a d ks c)" and "p \<noteq> []"
    and "map_of a ''data-s-show'' = Some v"
    and "v = ''$ctx.'' @ e \<or> (v = e \<and> \<not> sublist ''$ctx.'' e)"
    and "e = replicate n CHR ''!'' @ k"
    and "k = [] \<or> hd k \<noteq> CHR ''!''"
    and "st k = SUndefined \<or> (\<exists>s. st k = SString s)"
  shows "(\<exists>t1 a1 ks1. show_pass h st tmpl = Inr t1 \<and>
            get_node p t1 = Some (Node t a1
              (if (even n \<and> (\<exists>s. st k = SString s \<and> s \<noteq> [])) \<or>
                  (odd n \<and> \<not> (\<exists>s. st k = SString s \<and> s \<noteq> []))
               then [] else ''none'') ks1 c)) \<and>
         (\<forall>t' t2 a2 d2 ks2 c2.
            replaceStateDirectives h st tmpl = Inr t' \<longrightarrow>
            get_node p t' = Some (Node t2 a2 d2 ks2 c2) \<longrightarrow>
            ''style'' \<notin> set (written_names (Node t a d ks c)) \<longrightarrow>
            d2 = (if (even n \<and> (\<exists>s. st k = SString s \<and> s \<noteq> [])) \<or>
                     (odd n \<and> \<not> (\<exists>s. st k = SString s \<and> s \<noteq> []))
                  then [] else ''none''))"
proof -
  let ?x = "if (even n \<and> (\<exists>s. st k = SString s \<and> s \<noteq> [])) \<or>
                  (odd n \<and> \<not> (\<exists>s. st k = SString s \<and> s \<noteq> []))
               then [] else ''none''"
  let ?sel = "hasAttribute ''data-s-show''"
  have b: "Boolean (st k) = (\<exists>s. st k = SString s \<and> s \<noteq> [])"
    using assms(7) by auto
  have cb: "show_cb h st (Node t a d2 ks2 c) = Inr (set_display h ?x (Node t a d2 ks2 c))" for d2 ks2
    using show_cb_expected[OF assms(3,4,5,6), of h st t d2 ks2 c] b by simp
  have sel: "?sel (Node t a d ks c)" using assms(3) by (simp add: hasAttribute_def)
  obtain t1 where t1: "show_pass h st tmpl = Inr t1" using show_pass_total by blast
  then have fe: "forEach (querySelectorAll ?sel tmpl) (show_cb h st) tmpl = Inr t1"
    by (simp add: show_pass_def)
  from pass_get_node[OF keeps_kids_show fe assms(1,2)] obtain e' where
    e': "get_node p t1 = Some e'" and v: "visit ?sel (show_cb h st) (Node t a d ks c) = Inr e'"
    by blast
  from v sel cb[of d ks] obtain a1 ks1 where "e' = Node t a1 ?x ks1 c"
    by (auto split: sum.splits)
  with e' have one: "\<exists>a1 ks1. get_node p t1 = Some (Node t a1 ?x ks1 c)" by blast
  have two: "d2 = ?x"
    if r: "replaceStateDirectives h st tmpl = Inr t'"
      and g: "get_node p t' = Some (Node t2 a2 d2 ks2 c2)"
      and ns: "''style'' \<notin> set (written_names (Node t a d ks c))" for t' t2 a2 d2 ks2 c2
  proof -
    from resolve_local[OF r g assms(2)] assms(1) obtain a1 d1 where
      sh: "if ?sel (Node t a d ks c)
           then show_cb h st (Node t a d ks c) = Inr (Node t a1 d1 ks c) else (a1, d1) = (a, d)"
      and at: "if sel_attr (Node t a1 d1 ks c)
           then attr_cb h st (Node t a1 d1 ks c) = Inr (Node t a2 d2 ks c) else (a2, d2) = (a1, d1)"
      by auto
    from sh sel cb[of d ks] have d1: "d1 = ?x"
      and m: "\<forall>m. m \<noteq> ''style'' \<longrightarrow> map_of a1 m = map_of a m"
      by (auto simp: map_of_put_other split: option.splits)
    from m have "map_of a1 ''data-s-attr'' = map_of a ''data-s-attr''"
      "map_of a1 ''data-s-attrs'' = map_of a ''data-s-attrs''" by simp_all
    then have src: "attr_source (Node t a1 d1 ks c) = attr_source (Node t a d ks c)"
      by (simp add: attr_source_Node split: option.splits)
    show ?thesis
    proof (cases "sel_attr (Node t a1 d1 ks c)")
      case False
      with at d1 show ?thesis by simp
    next
      case True
      with at have "attr_cb h st (Node t a1 d1 ks c) = Inr (Node t a2 d2 ks c)" by simp
      from attr_cb_written[OF this] obtain w where w: "attr_source (Node t a1 d1 ks c) = Some w"
        and d2: "d2 = displays h (map (written st) (split_on CHR '','' w)) d1" by auto
      from w src have "attr_source (Node t a d ks c) = Some w" by simp
      from written_names_eq[OF this, of st] ns
      have "''style'' \<notin> fst ` set (map (written st) (split_on CHR '','' w))" by simp
      from displays_other[OF this] d2 d1 show ?thesis by simp
    qed
  qed
  from t1 one two show ?thesis by blast
qed

text \<open>
  The amended C1 at \<^verbatim>\<open>data-s-show="$ctx.!!truthyVal"\<close> and the state
  \<^verbatim>\<open>{truthyVal: "1234"}\<close>, on an element that is hidden before the resolution.
\<close>

theorem show_marker_display_witness:
  "get_node [0] (Node (Tag 1 Fragment) [] []
       [Node (Tag 2 Element) [(''data-s-show'', ''$ctx.!!truthyVal''), (''style'', ''display:none'')]
          ''none'' [] []] [])
     = Some (Node (Tag 2 Element) [(''data-s-show'', ''$ctx.!!truthyVal''), (''style'', ''display:none'')]
          ''none'' [] []) \<and>
   ''$ctx.!!truthyVal'' = ''$ctx.'' @ replicate 2 CHR ''!'' @ ''truthyVal'' \<and>
   obj plain_host [(''truthyVal'', ''1234'')] ''truthyVal'' = SString ''1234'' \<and>
   ''style'' \<notin> set (written_names
      (Node (Tag 2 Element) [(''data-s-show'', ''$ctx.!!truthyVal''), (''style'', ''display:none'')]
          ''none'' [] [])) \<and>
   (\<exists>t'. replaceStateDirectives plain_host (obj plain_host [(''truthyVal'', ''1234'')])
       (Node (Tag 1 Fragment) [] []
         [Node (Tag 2 Element) [(''data-s-show'', ''$ctx.!!truthyVal''), (''style'', ''display:none'')]
            ''none'' [] []] []) = Inr t' \<and>
       get_node [0] t' =
         Some (Node (Tag 2 Element) [(''data-s-show'', ''$ctx.!!truthyVal''), (''style'', [])] [] [] []))"
proof -
  let ?st = "obj plain_host [(''truthyVal'', ''1234'')]"
  let ?a = "[(''data-s-show'', ''$ctx.!!truthyVal''), (''style'', ''display:none'')]"
  let ?el = "Node (Tag 2 Element) ?a ''none'' [] []"
  let ?tm = "Node (Tag 1 Fragment) [] [] [?el] []"
  have g: "get_node [0] ?tm = Some ?el" by simp
  have ne: "[0::nat] \<noteq> []" by simp
  have m: "map_of ?a ''data-s-show'' = Some ''$ctx.!!truthyVal''" by simp
  have v: "''$ctx.!!truthyVal'' = ''$ctx.'' @ (replicate 2 CHR ''!'' @ ''truthyVal'') \<or>
      (''$ctx.!!truthyVal'' = replicate 2 CHR ''!'' @ ''truthyVal'' \<and>
       \<not> sublist ''$ctx.'' (replicate 2 CHR ''!'' @ ''truthyVal''))"
    by (simp add: numeral_2_eq_2)
  have k: "''truthyVal'' = [] \<or> hd ''truthyVal'' \<noteq> CHR ''!''" by simp
  have s: "?st ''truthyVal'' = SString ''1234''" by (simp add: obj_def)
  then have s': "?st ''truthyVal'' = SUndefined \<or> (\<exists>s. ?st ''truthyVal'' = SString s)" by simp
  have w: "''style'' \<notin> set (written_names ?el)"
    by (simp add: written_names_def attr_source_def)
  have r: "replaceStateDirectives plain_host ?st ?tm =
     Inr (Node (Tag 1 Fragment) [] []
       [Node (Tag 2 Element) [(''data-s-show'', ''$ctx.!!truthyVal''), (''style'', [])] [] [] []] [])"
    by (simp add: replaceStateDirectives_def show_pass_def text_pass_def attr_pass_def
        hasAttribute_def sel_attr_def show_cb_def Let_def clearMagic_def obj_def plain_host_def)
  from show_marker_display[where e = "replicate 2 CHR ''!'' @ ''truthyVal''" and n = 2
      and k = "''truthyVal''" and st = ?st and h = plain_host, OF g ne m v refl k s'] r w s
  show ?thesis by (simp add: numeral_2_eq_2)
qed

section \<open>Missing state keys\<close>

text \<open>
  C4, as stated, at three concrete inputs.

  The element carries \<^verbatim>\<open>data-s-text="k"\<close> and the state is \<^verbatim>\<open>{}\<close>: the resolution completes,
  and the element is left without children: its text content is the empty string, not the
  string \<^verbatim>\<open>"undefined"\<close>.

  The element carries \<^verbatim>\<open>data-s-text="a$ctx.b"\<close> and the state is \<^verbatim>\<open>{ab: "x"}\<close>, which has no
  key \<^verbatim>\<open>a$ctx.b\<close>: the key that is read is \<^verbatim>\<open>ab\<close>, and the text content is \<^verbatim>\<open>x\<close>.

  The element carries \<^verbatim>\<open>data-s-text="toString"\<close> and \<^verbatim>\<open>data-s-attr="title=toString"\<close>, and the
  state is \<^verbatim>\<open>{}\<close>, which has no key \<^verbatim>\<open>toString\<close>: text content and attribute are the text of
  the inherited function.
\<close>

theorem missing_key_text_counterexample:
  "replaceStateDirectives plain_host (obj plain_host [])
     (Node (Tag 1 Fragment) [] []
        [Node (Tag 2 Element) [(''data-s-text'', ''k'')] [] [Text ''old''] []] []) =
     Inr (Node (Tag 1 Fragment) [] [] [Node (Tag 2 Element) [(''data-s-text'', ''k'')] [] [] []] []) \<and>
   textContent (Node (Tag 2 Element) [(''data-s-text'', ''k'')] [] [] []) \<noteq> ''undefined'' \<and>
   replaceStateDirectives plain_host (obj plain_host [(''ab'', ''x'')])
     (Node (Tag 1 Fragment) [] []
        [Node (Tag 2 Element) [(''data-s-text'', ''a$ctx.b'')] [] [] []] []) =
     Inr (Node (Tag 1 Fragment) [] []
        [Node (Tag 2 Element) [(''data-s-text'', ''a$ctx.b'')] [] [Text ''x''] []] []) \<and>
   replaceStateDirectives plain_host (obj plain_host [])
     (Node (Tag 1 Fragment) [] []
        [Node (Tag 2 Element) [(''data-s-text'', ''toString''), (''data-s-attr'', ''title=toString'')]
           [] [] []] []) =
     Inr (Node (Tag 1 Fragment) [] []
        [Node (Tag 2 Element)
           [(''data-s-text'', ''toString''), (''data-s-attr'', ''title=toString''),
            (''title'', ''function toString() { [native code] }'')] []
           [Text ''function toString() { [native code] }''] []] [])"
  by (simp add: replaceStateDirectives_def show_pass_def text_pass_def attr_pass_def
      hasAttribute_def sel_attr_def text_cb_def attr_cb_def attr_source_def attr_pair_def
      clearMagic_def valid_attribute_name_def ascii_lower_def obj_def object_prototype_def
      plain_host_def)

text \<open>
  C4, amended. A marker value names the key \<open>k\<close> when it is \<^verbatim>\<open>$ctx.\<close> followed by \<open>k\<close>, or is
  \<open>k\<close> itself and \<open>k\<close> does not contain \<^verbatim>\<open>$ctx.\<close>; the key is missing when \<^verbatim>\<open>state[k]\<close> is
  \<^verbatim>\<open>undefined\<close>, so \<open>k\<close> is neither a property of the state nor one that it inherits. The text
  pass completes on every fragment and state. The text callback leaves an element whose
  text marker names a missing key without children, its text content the empty string; and
  when the whole resolution has completed and the element is still in the fragment, it has
  no children. A pair \<^verbatim>\<open>name=value\<close> with a valid attribute name, whose value names a missing
  key without \<^verbatim>\<open>=\<close> in it, completes and sets the attribute to the string \<^verbatim>\<open>"undefined"\<close>.
\<close>

theorem missing_key_resolution:
  assumes "v = ''$ctx.'' @ k \<or> (v = k \<and> \<not> sublist ''$ctx.'' k)" and "st k = SUndefined"
  shows "(\<exists>t2. text_pass st tmpl2 = Inr t2) \<and>
         (map_of a ''data-s-text'' = Some v \<longrightarrow>
            text_cb st (Node t a d ks c) = Inr (Node t a d [] c) \<and>
            textContent (Node t a d [] c) = []) \<and>
         (map_of a ''data-s-text'' = Some v \<longrightarrow>
            get_node p tmpl = Some (Node t a d ks c) \<longrightarrow> p \<noteq> [] \<longrightarrow>
            replaceStateDirectives h st tmpl = Inr t1 \<longrightarrow>
            get_node p t1 = Some (Node t' a' d' ks' c') \<longrightarrow> ks' = []) \<and>
         (valid_attribute_name name \<longrightarrow> CHR ''='' \<notin> set k \<longrightarrow>
            (\<exists>a3 d3. attr_pair h st (name @ ''='' @ v) (Node t3 a2 d2 ks3 c3) =
                        Inr (Node t3 a3 d3 ks3 c3) \<and>
                      map_of a3 (map ascii_lower name) = Some ''undefined''))"
proof -
  have cm: "clearMagic v = k"
    using assms(1) clearMagic_prefixed[of k] clearMagic_plain[of k] by auto
  have one: "\<exists>t2. text_pass st tmpl2 = Inr t2" by (rule text_pass_total)
  have two: "text_cb st (Node t a d ks c) = Inr (Node t a d [] c) \<and>
      textContent (Node t a d [] c) = []" if "map_of a ''data-s-text'' = Some v"
    using that cm assms(2) by (simp add: text_cb_Node)
  have three: "ks' = []"
    if "map_of a ''data-s-text'' = Some v" "get_node p tmpl = Some (Node t a d ks c)" "p \<noteq> []"
      "replaceStateDirectives h st tmpl = Inr t1" "get_node p t1 = Some (Node t' a' d' ks' c')"
    using resolve_text_local[OF that(4,2,3,1,5)] cm assms(2) by simp
  have four: "\<exists>a3 d3. attr_pair h st (name @ ''='' @ v) (Node t3 a2 d2 ks3 c3) =
                        Inr (Node t3 a3 d3 ks3 c3) \<and>
                      map_of a3 (map ascii_lower name) = Some ''undefined''"
    if vn: "valid_attribute_name name" and nk: "CHR ''='' \<notin> set k"
  proof -
    from vn have nn: "CHR ''='' \<notin> set name" by (auto simp: valid_attribute_name_def)
    from nk assms(1) have nv: "CHR ''='' \<notin> set v" by auto
    have "attr_pair h st (name @ ''='' @ v) (Node t3 a2 d2 ks3 c3) =
        setAttribute h name (st (clearMagic v)) (Node t3 a2 d2 ks3 c3)"
      using attr_pair_Cons[OF nn, of h st v] split_on_absent[OF nv] by simp
    then show ?thesis using vn cm assms(2) by (simp add: map_of_put)
  qed
  from one two three four show ?thesis by blast
qed

text \<open>
  The amended C4 at the inputs \<^verbatim>\<open>data-s-text="$ctx.k"\<close> and \<^verbatim>\<open>title=$ctx.k\<close> and the state
  \<^verbatim>\<open>{}\<close>.
\<close>

theorem missing_key_resolution_witness:
  "obj plain_host [] ''k'' = SUndefined \<and>
   text_cb (obj plain_host [])
     (Node (Tag 2 Element) [(''data-s-text'', ''$ctx.k'')] [] [Text ''old''] []) =
     Inr (Node (Tag 2 Element) [(''data-s-text'', ''$ctx.k'')] [] [] []) \<and>
   replaceStateDirectives plain_host (obj plain_host [])
     (Node (Tag 1 Fragment) [] []
        [Node (Tag 2 Element) [(''data-s-text'', ''$ctx.k'')] [] [Text ''old''] []] []) =
     Inr (Node (Tag 1 Fragment) [] []
        [Node (Tag 2 Element) [(''data-s-text'', ''$ctx.k'')] [] [] []] []) \<and>
   valid_attribute_name ''title'' \<and>
   (\<exists>a' d'. attr_pair plain_host (obj plain_host []) ''title=$ctx.k''
        (Node (Tag 2 Element) [(''data-s-attr'', ''title=$ctx.k'')] [] [] []) =
        Inr (Node (Tag 2 Element) a' d' [] []) \<and> map_of a' ''title'' = Some ''undefined'')"
proof -
  let ?st = "obj plain_host []"
  let ?el = "Node (Tag 2 Element) [(''data-s-text'', ''$ctx.k'')] [] [Text ''old''] []"
  let ?el' = "Node (Tag 2 Element) [(''data-s-text'', ''$ctx.k'')] [] [] []"
  have u: "?st ''k'' = SUndefined" by (simp add: obj_def object_prototype_def)
  have v: "''$ctx.k'' = ''$ctx.'' @ ''k'' \<or> (''$ctx.k'' = ''k'' \<and> \<not> sublist ''$ctx.'' ''k'')"
    by simp
  have r: "replaceStateDirectives plain_host ?st (Node (Tag 1 Fragment) [] [] [?el] []) =
     Inr (Node (Tag 1 Fragment) [] [] [?el'] [])"
    by (simp add: replaceStateDirectives_def show_pass_def text_pass_def attr_pass_def
      hasAttribute_def sel_attr_def text_cb_def clearMagic_def obj_def object_prototype_def)
  have m: "map_of [(''data-s-text'', ''$ctx.k'')] ''data-s-text'' = Some ''$ctx.k''" by simp
  have n: "valid_attribute_name ''title''" "CHR ''='' \<notin> set ''k''"
    by (simp_all add: valid_attribute_name_def)
  have l: "map ascii_lower ''title'' = ''title''" by (simp add: ascii_lower_def)
  from missing_key_resolution[where v = "''$ctx.k''" and k = "''k''" and st = ?st
      and h = plain_host and a = "[(''data-s-text'', ''$ctx.k'')]" and t = "Tag 2 Element"
      and d = "[]" and ks = "[Text ''old'']" and c = "[]" and p = "[0]"
      and tmpl = "Node (Tag 1 Fragment) [] [] [?el] []"
      and ?t1.0 = "Node (Tag 1 Fragment) [] [] [?el'] []" and t' = "Tag 2 Element"
      and a' = "[(''data-s-text'', ''$ctx.k'')]" and d' = "[]" and ks' = "[]" and c' = "[]"
      and name = "''title''" and ?t3.0 = "Tag 2 Element"
      and ?a2.0 = "[(''data-s-attr'', ''title=$ctx.k'')]" and ?d2.0 = "[]" and ?ks3.0 = "[]"
      and ?c3.0 = "[]" and ?tmpl2.0 = "Text []", OF v u] u r m n l
  show ?thesis by simp
qed

section \<open>The instantiator\<close>

lemmas eval_defs = renderTmpl_def clone_and_resolve_def cloneContent_def fresh_def
  replaceStateDirectives_def show_pass_def text_pass_def attr_pass_def hasAttribute_def
  sel_attr_def show_cb_def text_cb_def attr_cb_def attr_source_def attr_pair_def clearMagic_def
  Let_def call_def warn_def slot_of_def querySelector_def attach_def appendChild_def obj_def
  object_prototype_def plain_host_def valid_attribute_name_def ascii_lower_def


subsection \<open>Identities\<close>







lemma max_ids_append: "max_ids (xs @ ys) = max (max_ids xs) (max_ids ys)"
  by (induction xs) auto

subsection \<open>The shape of a tree\<close>















lemma clone_and_resolve_frame:
  "clone_and_resolve h tmplEl st w = (r, w1) \<Longrightarrow>
   take (length (roots w)) (roots w1) = roots w \<and> warnings w1 = warnings w"
  by (auto simp: clone_and_resolve_def cloneContent_def
      split: if_splits option.splits node.splits sum.splits prod.splits)

subsection \<open>Detachment\<close>







subsection \<open>A child provider without a slot\<close>

text \<open>
  C2, as stated, at a concrete input: the content of the template, and so the clone, has no
  element with \<^verbatim>\<open>data-s-slot\<close>; the provider adds such an element to the fragment it is given
  and returns a new element. \<^verbatim>\<open>renderTmpl\<close> calls the provider before it looks for the slot:
  it finds the slot that the provider has added, appends the element to it and returns the
  fragment, without a failure and without a warning. The second \<^verbatim>\<open>renderTmpl\<close> of the sources,
  which looks for the slot first, gives the warning and fails on the same input.
\<close>

theorem no_slot_failure_counterexample:
  "slot_of 3 [Node (Tag 1 Element) [] [] [Node (Tag 2 Template) [] [] [] [Text ''No results'']] [],
              Node (Tag 3 Fragment) [] [] [Text ''No results''] []] = Inr None \<and>
   renderTmpl plain_host 2 (obj plain_host [])
     (Some (\<lambda>tmpl st rs.
        (Inr (JNode 9),
         update_in tmpl (add_kids [Node (Tag 8 Element) [(''data-s-slot'', [])] [] [] []]) rs @
           [Node (Tag 9 Element) [] [] [] []],
         [])))
     \<lparr>roots = [Node (Tag 1 Element) [] [] [Node (Tag 2 Template) [] [] [] [Text ''No results'']] []],
      warnings = []\<rparr> =
     (Inr 3,
      \<lparr>roots = [Node (Tag 1 Element) [] [] [Node (Tag 2 Template) [] [] [] [Text ''No results'']] [],
                Node (Tag 3 Fragment) [] []
                  [Text ''No results'',
                   Node (Tag 8 Element) [(''data-s-slot'', [])] []
                     [Node (Tag 9 Element) [] [] [] []] []] []],
       warnings = []\<rparr>) \<and>
   renderTmpl2 plain_host 2 (obj plain_host [])
     (Some (\<lambda>tmpl st rs.
        (Inr (JNode 9),
         update_in tmpl (add_kids [Node (Tag 8 Element) [(''data-s-slot'', [])] [] [] []]) rs @
           [Node (Tag 9 Element) [] [] [] []],
         [])))
     \<lparr>roots = [Node (Tag 1 Element) [] [] [Node (Tag 2 Template) [] [] [] [Text ''No results'']] []],
      warnings = []\<rparr> =
     (Inl TypeError,
      \<lparr>roots = [Node (Tag 1 Element) [] [] [Node (Tag 2 Template) [] [] [] [Text ''No results'']] [],
                Node (Tag 3 Fragment) [] []
                  [Text ''No results'', Node (Tag 8 Element) [(''data-s-slot'', [])] [] [] []] [],
                Node (Tag 9 Element) [] [] [] []],
       warnings = [no_slot_warning]\<rparr>)"
  by (simp add: eval_defs renderTmpl2_def)

text \<open>
  C2, amended. The clone has been resolved, the provider has returned normally, and the
  fragment has no element with \<^verbatim>\<open>data-s-slot\<close> when the slot is looked up, which is after the
  call of the provider. Then the warning is the last entry of the log, after what the
  provider wrote; when the provider returned a node, another truthy value or a non-empty
  array, the call fails with a \<^verbatim>\<open>TypeError\<close> at the first \<^verbatim>\<open>appendChild\<close> and no tree has been
  changed by it; when the provider returned nothing, the call returns the fragment.
\<close>

theorem no_slot_failure:
  assumes "clone_and_resolve h tmplEl st w = (Inr tmpl, w1)"
    and "f tmpl st (roots w1) = (Inr sub, rs, out)"
    and "slot_of tmpl rs = Inr None"
  shows "renderTmpl h tmplEl st (Some f) w =
     (if provides sub then Inl TypeError else Inr tmpl,
      \<lparr>roots = rs, warnings = warnings w1 @ out @ [no_slot_warning]\<rparr>)"
proof (cases sub)
  case (JArray items)
  with assms show ?thesis
    by (cases items) (simp_all add: renderTmpl_def call_def warn_def attach_def appendChild_def)
qed (use assms in \<open>simp_all add: renderTmpl_def call_def warn_def attach_def appendChild_def\<close>)

text \<open>
  The amended C2 at a template without a slot and a provider that returns a new detached
  element.
\<close>

theorem no_slot_failure_witness:
  "clone_and_resolve plain_host 2 (obj plain_host [])
     \<lparr>roots = [Node (Tag 1 Element) [] [] [Node (Tag 2 Template) [] [] [] [Text ''No results'']] []],
      warnings = []\<rparr> =
     (Inr 3, \<lparr>roots = [Node (Tag 1 Element) [] [] [Node (Tag 2 Template) [] [] [] [Text ''No results'']] [],
                        Node (Tag 3 Fragment) [] [] [Text ''No results''] []],
              warnings = []\<rparr>) \<and>
   slot_of 3 [Node (Tag 1 Element) [] [] [Node (Tag 2 Template) [] [] [] [Text ''No results'']] [],
              Node (Tag 3 Fragment) [] [] [Text ''No results''] [],
              Node (Tag 9 Element) [] [] [] []] = Inr None \<and>
   renderTmpl plain_host 2 (obj plain_host [])
     (Some (\<lambda>tmpl st rs. (Inr (JNode 9), rs @ [Node (Tag 9 Element) [] [] [] []], [])))
     \<lparr>roots = [Node (Tag 1 Element) [] [] [Node (Tag 2 Template) [] [] [] [Text ''No results'']] []],
      warnings = []\<rparr> =
     (Inl TypeError,
      \<lparr>roots = [Node (Tag 1 Element) [] [] [Node (Tag 2 Template) [] [] [] [Text ''No results'']] [],
                Node (Tag 3 Fragment) [] [] [Text ''No results''] [],
                Node (Tag 9 Element) [] [] [] []],
       warnings = [no_slot_warning]\<rparr>)"
proof -
  let ?doc = "Node (Tag 1 Element) [] [] [Node (Tag 2 Template) [] [] [] [Text ''No results'']] []"
  let ?frag = "Node (Tag 3 Fragment) [] [] [Text ''No results''] []"
  let ?new = "Node (Tag 9 Element) [] [] [] []"
  let ?f = "\<lambda>(tmpl::ident) (st::state) rs. (Inr (JNode 9) :: error + jsval, rs @ [?new], [] :: string list)"
  have c: "clone_and_resolve plain_host 2 (obj plain_host []) \<lparr>roots = [?doc], warnings = []\<rparr> =
     (Inr 3, \<lparr>roots = [?doc, ?frag], warnings = []\<rparr>)"
    by (simp add: eval_defs)
  have p: "?f 3 (obj plain_host []) (roots \<lparr>roots = [?doc, ?frag], warnings = []\<rparr>) =
     (Inr (JNode 9), [?doc, ?frag, ?new], [])"
    by simp
  have s: "slot_of 3 [?doc, ?frag, ?new] = Inr None"
    by (simp add: slot_of_def querySelector_def)
  from no_slot_failure[where f = ?f, OF c p s] c s show ?thesis by simp
qed

subsection \<open>The two variants of \<^verbatim>\<open>renderTmpl\<close>\<close>






subsection \<open>Moving nodes\<close>

































subsection \<open>Appending the provided nodes\<close>




end
